theory Spec2Isabelle
  imports Main "HOL-Library.Sublist"
begin

section \<open>The edge-property legality check of the GPS backend\<close>

text \<open>
  A shallow embedding of \<^verbatim>\<open>src/backend_gps/gm_gps_new_check_edge_value.cc\<close>:
  the state machine \<^verbatim>\<open>manage_edge_prop_access_state\<close>, the four callbacks of the
  visitor class \<^verbatim>\<open>gps_check_edge_value_t\<close> and the driver
  \<^verbatim>\<open>gm_gps_opt_check_edge_value::process\<close>.

  Pointers are addresses (\<open>nat\<close>); a null pointer is \<open>None\<close> where the code
  compares against or dereferences one. Every \<^verbatim>\<open>assert\<close> and every dereference
  of a pointer that can be null is a branch that returns a \<open>failure\<close>.
\<close>

subsection \<open>AST nodes and symbols, as the callbacks read them\<close>

text \<open>
  Modelled from the spec: the classes of the AST and of the symbol table
  (\<^verbatim>\<open>gm_symtab_entry\<close>, \<^verbatim>\<open>ast_id\<close>, \<^verbatim>\<open>ast_field\<close>, \<^verbatim>\<open>ast_expr\<close>,
  \<^verbatim>\<open>ast_sent\<close>, \<^verbatim>\<open>ast_procdef\<close>) are declared in headers that are not under
  \<^verbatim>\<open>src/\<close>. Section 3 of the specification gives their shape; each field below is
  an accessor that the callbacks call, under its name in the source. The type predicates
  \<^verbatim>\<open>getType()->is_edge()\<close>, \<^verbatim>\<open>getType()->is_edge_compatible()\<close> and
  \<^verbatim>\<open>getSourceTypeInfo()->is_edge_compatible()\<close> are independent fields.
\<close>

record gm_symtab_entry =
  sym_addr :: nat
  type_is_edge :: bool
  type_is_edge_compatible :: bool

record ast_id =
  getSymInfo :: gm_symtab_entry
  get_orgname :: string
  id_line :: int
  id_col :: int

record ast_field =
  get_first :: ast_id
  get_second :: ast_id
  field_line :: int
  field_col :: int
  source_type_is_edge_compatible :: bool

datatype gm_method_id = GM_BLTIN_NODE_TO_EDGE | GM_BLTIN_OTHER nat

record ast_expr_builtin =
  get_driver :: "ast_id option"
  get_method_id :: gm_method_id

datatype expr_class_t =
    EXPR_FIELD ast_field
  | EXPR_ID ast_id
  | EXPR_BUILTIN ast_expr_builtin
  | EXPR_OTHER

text \<open>
  \<open>info_bool_EXPR_SCOPE\<close> is what \<^verbatim>\<open>e->find_info_bool(GPS_INT_EXPR_SCOPE)\<close>
  returns for the node: a C++ \<^verbatim>\<open>bool\<close>. The scope classification of an
  expression is left by an earlier pass; this is the only way the callback reads it.
\<close>

record ast_expr_node =
  expr_class :: expr_class_t
  info_bool_EXPR_SCOPE :: bool

datatype ast_expr = Expr ast_expr_node "ast_expr list"

fun expr_node :: "ast_expr \<Rightarrow> ast_expr_node" where
  "expr_node (Expr n es) = n"

datatype nodetype =
  AST_FOREACH | AST_ASSIGN | AST_WHILE | AST_IF | AST_SENTBLOCK | AST_PROCDEF | AST_OTHER

datatype assign_lhs = LHS_SCALA ast_id | LHS_FIELD ast_field

datatype sent_class_t =
    SENT_FOREACH ast_id
  | SENT_ASSIGN assign_lhs ast_expr
  | SENT_WHILE
  | SENT_IF
  | SENT_BLOCK
  | SENT_OTHER

fun get_nodetype :: "sent_class_t \<Rightarrow> nodetype" where
  "get_nodetype (SENT_FOREACH it) = AST_FOREACH"
| "get_nodetype (SENT_ASSIGN l r) = AST_ASSIGN"
| "get_nodetype SENT_WHILE = AST_WHILE"
| "get_nodetype SENT_IF = AST_IF"
| "get_nodetype SENT_BLOCK = AST_SENTBLOCK"
| "get_nodetype SENT_OTHER = AST_OTHER"

text \<open>
  A statement: its address, what it is, the symbol-table entries declared at it, the
  expressions it owns besides an assignment's right-hand side, and its child statements.
\<close>

datatype ast_sent =
  Sent (sent_addr: nat) (sent_class: sent_class_t) (sent_symtab: "gm_symtab_entry list")
       (sent_exprs: "ast_expr list") (sent_body: "ast_sent list")

text \<open>
  The chain of \<^verbatim>\<open>get_parent()\<close> links of a statement: the parent first, the root
  last, each with its address and node type. The empty chain is a null parent.
\<close>

type_synonym parent_chain = "(nat \<times> nodetype) list"

record ast_procdef =
  proc_addr :: nat
  proc_symtab :: "gm_symtab_entry list"
  proc_body :: ast_sent

subsection \<open>Diagnostics, failures and the state of one run\<close>

datatype gm_error_t =
    GM_ERROR_GPS_EDGE_WRITE_CONDITIONAL
  | GM_ERROR_GPS_EDGE_WRITE_RHS
  | GM_ERROR_GPS_EDGE_READ_RANDOM
  | GM_ERROR_GPS_EDGE_SEND_VERSIONS

datatype diagnostic =
  Diag (diag_kind: gm_error_t) (diag_line: int) (diag_col: int) (diag_name: "string option")

datatype failure =
    ASSERT_OP
  | ASSERT_PARENT_NOT_NULL
  | ASSERT_INNER_LOOP_NOT_NULL
  | ASSERT_B_FALSE
  | NULL_DEREF

datatype gps_edge_value =
    GPS_ENUM_EDGE_VALUE_ERROR
  | GPS_ENUM_EDGE_VALUE_WRITE
  | GPS_ENUM_EDGE_VALUE_SENT
  | GPS_ENUM_EDGE_VALUE_WRITE_SENT
  | GPS_ENUM_EDGE_VALUE_SENT_WRITE

text \<open>
  The fields of \<^verbatim>\<open>gps_check_edge_value_t\<close> (the four traversal switches of its
  base class that the constructor sets, then its own four fields; \<open>error_flag\<close> is
  \<^verbatim>\<open>_error\<close>), followed by what the callbacks reach through pointers: the extra
  information attached to nodes and symbols, and the log of the error reporter.

  Modelled from the spec: the annotation store (\<^verbatim>\<open>find_info_bool\<close>,
  \<^verbatim>\<open>add_info_bool\<close>, \<^verbatim>\<open>find_info_map_value\<close>, \<^verbatim>\<open>add_info_map_key_value\<close>
  and \<^verbatim>\<open>add_info_list_element\<close> are not under \<^verbatim>\<open>src/\<close>). Section 4.2 of the
  specification: one payload per owner and key; a flag that was never set reads false; a
  map from symbols to values, created on its first write; a list of statements in
  insertion order. There is one field per key, indexed by the address of the owner.
\<close>

record pass_state =
  separate_post_apply :: bool
  for_symtab :: bool
  for_sent :: bool
  for_expr :: bool
  inner_iter :: "nat option"
  inner_loop :: "nat option"
  error_flag :: bool
  target_is_edge_prop :: bool
  GPS_FLAG_IS_INNER_LOOP :: "nat \<Rightarrow> bool"
  GPS_FLAG_EDGE_DEFINED_INNER :: "nat \<Rightarrow> bool"
  GPS_FLAG_EDGE_DEFINING_INNER :: "nat \<Rightarrow> bool"
  GPS_FLAG_EDGE_DEFINING_WRITE :: "nat \<Rightarrow> bool"
  GPS_MAP_EDGE_PROP_ACCESS :: "nat \<times> nat \<rightharpoonup> gps_edge_value"
  GPS_LIST_EDGE_PROP_WRITE :: "nat \<Rightarrow> nat list"
  backend_errors :: "diagnostic list"

text \<open>
  The two scope constants come from the header \<^verbatim>\<open>gm_backend_gps.h\<close>, which is not
  under \<^verbatim>\<open>src/\<close>: their values are parameters of the model.
\<close>

record gps_consts =
  GPS_NEW_SCOPE_IN :: int
  GPS_NEW_SCOPE_RANDOM :: int

text \<open>
  Modelled from the spec: \<^verbatim>\<open>gm_backend_error\<close> is the error reporter of section 2
  of the specification, which records (kind, location, context) tuples; the log holds
  them oldest first. The name is \<open>None\<close> for the overload without a name.
\<close>

definition gm_backend_error :: "gm_error_t \<Rightarrow> int \<Rightarrow> int \<Rightarrow> string option \<Rightarrow> pass_state \<Rightarrow> pass_state" where
  "gm_backend_error k l c n st = st\<lparr>backend_errors := backend_errors st @ [Diag k l c n]\<rparr>"

definition set_error :: "bool \<Rightarrow> pass_state \<Rightarrow> pass_state" where
  "set_error b st = st\<lparr>error_flag := b\<rparr>"

definition is_error :: "pass_state \<Rightarrow> bool" where
  "is_error st = error_flag st"

subsection \<open>The state machine\<close>

definition SENDING :: int where
  "SENDING = 1"

definition WRITING :: int where
  "WRITING = 2"

definition set_state :: "nat \<Rightarrow> nat \<Rightarrow> gps_edge_value \<Rightarrow> pass_state \<Rightarrow> pass_state" where
  "set_state fe e v st =
     st\<lparr>GPS_MAP_EDGE_PROP_ACCESS := (GPS_MAP_EDGE_PROP_ACCESS st)((fe, e) \<mapsto> v)\<rparr>"

text \<open>
  \<^verbatim>\<open>manage_edge_prop_access_state(fe, e, op)\<close>; the result is \<^verbatim>\<open>is_error\<close> and the
  state after it. The stored value is one of the five enumerators, so the
  \<^verbatim>\<open>default\<close> branch of the switch has no counterpart.
\<close>

definition manage_edge_prop_access_state ::
  "nat option \<Rightarrow> nat \<Rightarrow> int \<Rightarrow> pass_state \<Rightarrow> failure + bool \<times> pass_state" where
  "manage_edge_prop_access_state fe e op st =
     (if \<not> (op = SENDING \<or> op = WRITING) then Inl ASSERT_OP
      else case fe of
        None \<Rightarrow> Inl NULL_DEREF
      | Some l \<Rightarrow>
          (case GPS_MAP_EDGE_PROP_ACCESS st (l, e) of
             None \<Rightarrow>
               Inr (False,
                 set_state l e
                   (if op = SENDING then GPS_ENUM_EDGE_VALUE_SENT else GPS_ENUM_EDGE_VALUE_WRITE) st)
           | Some GPS_ENUM_EDGE_VALUE_ERROR \<Rightarrow> Inr (False, st)
           | Some GPS_ENUM_EDGE_VALUE_WRITE \<Rightarrow>
               Inr (False,
                 if op = SENDING then set_state l e GPS_ENUM_EDGE_VALUE_WRITE_SENT st else st)
           | Some GPS_ENUM_EDGE_VALUE_SENT \<Rightarrow>
               Inr (False,
                 if op = WRITING then set_state l e GPS_ENUM_EDGE_VALUE_SENT_WRITE st else st)
           | Some GPS_ENUM_EDGE_VALUE_WRITE_SENT \<Rightarrow>
               Inr (False,
                 if op = WRITING then set_state l e GPS_ENUM_EDGE_VALUE_SENT_WRITE st else st)
           | Some GPS_ENUM_EDGE_VALUE_SENT_WRITE \<Rightarrow>
               (if op = SENDING then Inr (True, set_state l e GPS_ENUM_EDGE_VALUE_ERROR st)
                else Inr (False, st))))"

subsection \<open>The callbacks of the visitor\<close>

text \<open>The constructor, over the extra information that earlier passes left.\<close>

definition new_gps_check_edge_value_t :: "(nat \<Rightarrow> bool) \<Rightarrow> pass_state" where
  "new_gps_check_edge_value_t is_inner =
     \<lparr>separate_post_apply = True, for_symtab = True, for_sent = True, for_expr = True,
      inner_iter = None, inner_loop = None, error_flag = False, target_is_edge_prop = False,
      GPS_FLAG_IS_INNER_LOOP = is_inner,
      GPS_FLAG_EDGE_DEFINED_INNER = (\<lambda>a. False),
      GPS_FLAG_EDGE_DEFINING_INNER = (\<lambda>a. False),
      GPS_FLAG_EDGE_DEFINING_WRITE = (\<lambda>a. False),
      GPS_MAP_EDGE_PROP_ACCESS = Map.empty,
      GPS_LIST_EDGE_PROP_WRITE = (\<lambda>a. []),
      backend_errors = []\<rparr>"

text \<open>\<^verbatim>\<open>apply(gm_symtab_entry* e, int type)\<close>\<close>

definition apply_symtab :: "gm_symtab_entry \<Rightarrow> pass_state \<Rightarrow> failure + bool \<times> pass_state" where
  "apply_symtab e st =
     (case inner_loop st of
        Some l \<Rightarrow>
          if type_is_edge e then
            Inr (True,
              st\<lparr>GPS_FLAG_EDGE_DEFINED_INNER := (GPS_FLAG_EDGE_DEFINED_INNER st)(sym_addr e := True),
                 GPS_FLAG_EDGE_DEFINING_INNER := (GPS_FLAG_EDGE_DEFINING_INNER st)(l := True)\<rparr>)
          else Inr (True, st)
      | None \<Rightarrow> Inr (True, st))"

text \<open>
  The loop that looks for a conditional write, entered after the first parent was seen
  not to be null: each further step reads the next parent and asserts it is not null.
\<close>

fun find_conditional :: "nat option \<Rightarrow> parent_chain \<Rightarrow> failure + bool" where
  "find_conditional il [] = Inl ASSERT_PARENT_NOT_NULL"
| "find_conditional il ((p, k) # ps) =
     (if Some p = il then Inr False
      else if k = AST_WHILE \<or> k = AST_IF \<or> k = AST_FOREACH then Inr True
      else find_conditional il ps)"

text \<open>
  The whole loop. With a null first parent, the comparison with \<^verbatim>\<open>inner_loop\<close> comes
  first (two null pointers are equal), the dereference after it.
\<close>

definition check_conditional :: "nat option \<Rightarrow> parent_chain \<Rightarrow> failure + bool" where
  "check_conditional il ps =
     (case ps of
        [] \<Rightarrow> (if il = None then Inr False else Inl NULL_DEREF)
      | _ # _ \<Rightarrow> find_conditional il ps)"

text \<open>The branch of \<^verbatim>\<open>apply(ast_sent*)\<close> for an assignment to a field.\<close>

definition apply_assign_field :: "nat \<Rightarrow> parent_chain \<Rightarrow> ast_field \<Rightarrow> pass_state \<Rightarrow> failure + bool \<times> pass_state" where
  "apply_assign_field s ps f st =
     (let sym = getSymInfo (get_first f) in
      if type_is_edge_compatible sym then
        if GPS_FLAG_EDGE_DEFINED_INNER st (sym_addr sym) then
          (case check_conditional (inner_loop st) ps of
             Inl x \<Rightarrow> Inl x
           | Inr conditional \<Rightarrow>
               (let st1 =
                      (if conditional then
                         set_error True
                           (gm_backend_error GM_ERROR_GPS_EDGE_WRITE_CONDITIONAL
                              (field_line f) (field_col f) None st)
                       else st);
                    st2 = st1\<lparr>target_is_edge_prop := True\<rparr>
                in case inner_loop st2 of
                     None \<Rightarrow> Inl ASSERT_INNER_LOOP_NOT_NULL
                   | Some l \<Rightarrow>
                       (let st3 = st2\<lparr>GPS_LIST_EDGE_PROP_WRITE :=
                                         (GPS_LIST_EDGE_PROP_WRITE st2)
                                           (l := GPS_LIST_EDGE_PROP_WRITE st2 l @ [s])\<rparr>
                        in case manage_edge_prop_access_state (inner_loop st3)
                                  (sym_addr (getSymInfo (get_second f))) WRITING st3 of
                             Inl x \<Rightarrow> Inl x
                           | Inr (b, st4) \<Rightarrow>
                               if b = False then Inr (True, st4) else Inl ASSERT_B_FALSE)))
        else Inr (True, st)
      else Inr (True, st))"

text \<open>The branch for an assignment to a scalar.\<close>

definition apply_assign_scala :: "nat \<Rightarrow> ast_id \<Rightarrow> ast_expr \<Rightarrow> pass_state \<Rightarrow> failure + bool \<times> pass_state" where
  "apply_assign_scala s i rhs st =
     (let sym = getSymInfo i in
      if type_is_edge sym then
        if GPS_FLAG_EDGE_DEFINED_INNER st (sym_addr sym) then
          (case expr_class (expr_node rhs) of
             EXPR_BUILTIN b_rhs \<Rightarrow>
               (case get_driver b_rhs of
                  None \<Rightarrow> Inl NULL_DEREF
                | Some drv \<Rightarrow>
                    if get_method_id b_rhs = GM_BLTIN_NODE_TO_EDGE then
                      Inr (True,
                        st\<lparr>GPS_FLAG_EDGE_DEFINING_WRITE :=
                             (GPS_FLAG_EDGE_DEFINING_WRITE st)(s := True)\<rparr>)
                    else Inr (True, st))
           | _ \<Rightarrow> Inr (True, st))
        else Inr (True, st)
      else Inr (True, st))"

text \<open>\<^verbatim>\<open>apply(ast_sent* s)\<close>, for the statement and its chain of parents.\<close>

definition apply_sent :: "parent_chain \<Rightarrow> ast_sent \<Rightarrow> pass_state \<Rightarrow> failure + bool \<times> pass_state" where
  "apply_sent ps s st =
     (case sent_class s of
        SENT_FOREACH it \<Rightarrow>
          if GPS_FLAG_IS_INNER_LOOP st (sent_addr s) then
            Inr (True, st\<lparr>inner_iter := Some (sym_addr (getSymInfo it)),
                          inner_loop := Some (sent_addr s)\<rparr>)
          else Inr (True, st)
      | SENT_ASSIGN (LHS_FIELD f) rhs \<Rightarrow> apply_assign_field (sent_addr s) ps f st
      | SENT_ASSIGN (LHS_SCALA i) rhs \<Rightarrow> apply_assign_scala (sent_addr s) i rhs st
      | _ \<Rightarrow> Inr (True, st))"

text \<open>
  \<^verbatim>\<open>apply(ast_expr* e)\<close>. The test of (case 2) compares the \<^verbatim>\<open>bool\<close> that
  \<^verbatim>\<open>find_info_bool\<close> returns with an integer constant: C++ promotes the
  \<^verbatim>\<open>bool\<close> to 0 or 1.
\<close>

definition check_rhs_scope :: "gps_consts \<Rightarrow> ast_expr_node \<Rightarrow> pass_state \<Rightarrow> pass_state" where
  "check_rhs_scope K e st =
     (if target_is_edge_prop st then
        if of_bool (info_bool_EXPR_SCOPE e) = GPS_NEW_SCOPE_IN K
           \<or> of_bool (info_bool_EXPR_SCOPE e) = GPS_NEW_SCOPE_RANDOM K then
          (case expr_class e of
             EXPR_FIELD f \<Rightarrow>
               set_error True
                 (gm_backend_error GM_ERROR_GPS_EDGE_WRITE_RHS (field_line f) (field_col f)
                    (Some (get_orgname (get_first f))) st)
           | EXPR_ID i \<Rightarrow>
               set_error True
                 (gm_backend_error GM_ERROR_GPS_EDGE_WRITE_RHS (id_line i) (id_col i)
                    (Some (get_orgname i)) st)
           | _ \<Rightarrow> st)
        else st
      else st)"

definition check_edge_read :: "ast_expr_node \<Rightarrow> pass_state \<Rightarrow> failure + bool \<times> pass_state" where
  "check_edge_read e st =
     (case expr_class e of
        EXPR_FIELD f \<Rightarrow>
          if source_type_is_edge_compatible f then
            if \<not> GPS_FLAG_EDGE_DEFINED_INNER st (sym_addr (getSymInfo (get_first f))) then
              Inr (True,
                set_error True
                  (gm_backend_error GM_ERROR_GPS_EDGE_READ_RANDOM (field_line f) (field_col f)
                     None st))
            else
              (case manage_edge_prop_access_state (inner_loop st)
                      (sym_addr (getSymInfo (get_second f))) SENDING st of
                 Inl x \<Rightarrow> Inl x
               | Inr (b, st1) \<Rightarrow>
                   if b then
                     Inr (True,
                       set_error True
                         (gm_backend_error GM_ERROR_GPS_EDGE_SEND_VERSIONS (field_line f)
                            (field_col f) (Some (get_orgname (get_first f))) st1))
                   else Inr (True, st1))
          else Inr (True, st)
      | _ \<Rightarrow> Inr (True, st))"

definition apply_expr :: "gps_consts \<Rightarrow> ast_expr_node \<Rightarrow> pass_state \<Rightarrow> failure + bool \<times> pass_state" where
  "apply_expr K e st = check_edge_read e (check_rhs_scope K e st)"

text \<open>\<^verbatim>\<open>apply2(ast_sent* s)\<close>\<close>

definition apply2 :: "ast_sent \<Rightarrow> pass_state \<Rightarrow> failure + bool \<times> pass_state" where
  "apply2 s st =
     (case sent_class s of
        SENT_FOREACH it \<Rightarrow>
          if Some (sent_addr s) = inner_loop st then
            Inr (True, st\<lparr>inner_loop := None, inner_iter := None\<rparr>)
          else Inr (True, st)
      | SENT_ASSIGN l r \<Rightarrow> Inr (True, st\<lparr>target_is_edge_prop := False\<rparr>)
      | _ \<Rightarrow> Inr (True, st))"

subsection \<open>The traversal and the driver\<close>

text \<open>
  Modelled from the spec: the traversal engine (\<^verbatim>\<open>traverse_both\<close> and the
  \<^verbatim>\<open>traverse\<close> methods of the AST classes are not under \<^verbatim>\<open>src/\<close>).
  Section 4.3 of the specification: one depth-first walk in source order, each callback
  under its switch; the statement callback on a statement before its children, the symbol
  callback on the entries declared at it, the expression callback on an expression before
  its sub-expressions; with a separate post pass, \<^verbatim>\<open>apply2\<close> on a statement after
  its children. The specification does not say whether a statement or the entries
  declared at it come first: here the statement does. A callback that signals stop ends
  the walk of the list its node stands in and of the node's own children, and the
  enclosing levels go on. A failure of a callback ends the walk.
\<close>

fun traverse_expr :: "gps_consts \<Rightarrow> ast_expr \<Rightarrow> pass_state \<Rightarrow> failure + bool \<times> pass_state"
  and traverse_exprs :: "gps_consts \<Rightarrow> ast_expr list \<Rightarrow> pass_state \<Rightarrow> failure + pass_state" where
  "traverse_expr K (Expr n es) st =
     (case (if for_expr st then apply_expr K n st else Inr (True, st)) of
        Inl x \<Rightarrow> Inl x
      | Inr (c, st1) \<Rightarrow>
          if c then
            (case traverse_exprs K es st1 of
               Inl x \<Rightarrow> Inl x
             | Inr st2 \<Rightarrow> Inr (True, st2))
          else Inr (False, st1))"
| "traverse_exprs K [] st = Inr st"
| "traverse_exprs K (e # es) st =
     (case traverse_expr K e st of
        Inl x \<Rightarrow> Inl x
      | Inr (c, st1) \<Rightarrow> if c then traverse_exprs K es st1 else Inr st1)"

fun apply_symtabs :: "gm_symtab_entry list \<Rightarrow> pass_state \<Rightarrow> failure + pass_state" where
  "apply_symtabs [] st = Inr st"
| "apply_symtabs (e # es) st =
     (case (if for_symtab st then apply_symtab e st else Inr (True, st)) of
        Inl x \<Rightarrow> Inl x
      | Inr (c, st1) \<Rightarrow> if c then apply_symtabs es st1 else Inr st1)"

fun sub_exprs :: "ast_sent \<Rightarrow> ast_expr list" where
  "sub_exprs (Sent a (SENT_ASSIGN l rhs) syms es body) = rhs # es"
| "sub_exprs (Sent a c syms es body) = es"

fun traverse_sent :: "gps_consts \<Rightarrow> parent_chain \<Rightarrow> ast_sent \<Rightarrow> pass_state \<Rightarrow> failure + bool \<times> pass_state"
  and traverse_sents :: "gps_consts \<Rightarrow> parent_chain \<Rightarrow> ast_sent list \<Rightarrow> pass_state \<Rightarrow> failure + pass_state" where
  "traverse_sent K ps (Sent a cl syms es body) st =
     (case (if for_sent st then apply_sent ps (Sent a cl syms es body) st else Inr (True, st)) of
        Inl x \<Rightarrow> Inl x
      | Inr (c, st1) \<Rightarrow>
          if \<not> c then Inr (False, st1)
          else
            (case apply_symtabs syms st1 of
               Inl x \<Rightarrow> Inl x
             | Inr st2 \<Rightarrow>
                 (case traverse_exprs K (sub_exprs (Sent a cl syms es body)) st2 of
                    Inl x \<Rightarrow> Inl x
                  | Inr st3 \<Rightarrow>
                      (case traverse_sents K ((a, get_nodetype cl) # ps) body st3 of
                         Inl x \<Rightarrow> Inl x
                       | Inr st4 \<Rightarrow>
                           if for_sent st4 \<and> separate_post_apply st4
                           then apply2 (Sent a cl syms es body) st4
                           else Inr (True, st4)))))"
| "traverse_sents K ps [] st = Inr st"
| "traverse_sents K ps (s # ss) st =
     (case traverse_sent K ps s st of
        Inl x \<Rightarrow> Inl x
      | Inr (c, st1) \<Rightarrow> if c then traverse_sents K ps ss st1 else Inr st1)"

definition traverse_both :: "gps_consts \<Rightarrow> ast_procdef \<Rightarrow> pass_state \<Rightarrow> failure + pass_state" where
  "traverse_both K proc st =
     (case apply_symtabs (proc_symtab proc) st of
        Inl x \<Rightarrow> Inl x
      | Inr st1 \<Rightarrow>
          (case traverse_sent K [(proc_addr proc, AST_PROCDEF)] (proc_body proc) st1 of
             Inl x \<Rightarrow> Inl x
           | Inr (c, st2) \<Rightarrow> Inr st2))"

text \<open>
  \<^verbatim>\<open>gm_gps_opt_check_edge_value::process\<close>: the value given to \<^verbatim>\<open>set_okay\<close>, and
  the state the run leaves.
\<close>

definition process :: "gps_consts \<Rightarrow> (nat \<Rightarrow> bool) \<Rightarrow> ast_procdef \<Rightarrow> failure + bool \<times> pass_state" where
  "process K is_inner proc =
     (case traverse_both K proc (new_gps_check_edge_value_t is_inner) of
        Inl x \<Rightarrow> Inl x
      | Inr T2 \<Rightarrow> Inr (\<not> is_error T2, T2))"

subsection \<open>The transition table of the specification\<close>

datatype access_event = Send | Write

fun op_of :: "access_event \<Rightarrow> int" where
  "op_of Send = SENDING"
| "op_of Write = WRITING"

text \<open>
  Rule 6 of section 4.4 of the specification, line by line; \<open>None\<close> is "no prior
  state".
\<close>

fun spec_transition :: "gps_edge_value option \<Rightarrow> access_event \<Rightarrow> gps_edge_value option" where
  "spec_transition None Send = Some GPS_ENUM_EDGE_VALUE_SENT"
| "spec_transition None Write = Some GPS_ENUM_EDGE_VALUE_WRITE"
| "spec_transition (Some GPS_ENUM_EDGE_VALUE_WRITE) Send = Some GPS_ENUM_EDGE_VALUE_WRITE_SENT"
| "spec_transition (Some GPS_ENUM_EDGE_VALUE_WRITE) Write = Some GPS_ENUM_EDGE_VALUE_WRITE"
| "spec_transition (Some GPS_ENUM_EDGE_VALUE_SENT) Write = Some GPS_ENUM_EDGE_VALUE_SENT_WRITE"
| "spec_transition (Some GPS_ENUM_EDGE_VALUE_SENT) Send = Some GPS_ENUM_EDGE_VALUE_SENT"
| "spec_transition (Some GPS_ENUM_EDGE_VALUE_WRITE_SENT) Write = Some GPS_ENUM_EDGE_VALUE_SENT_WRITE"
| "spec_transition (Some GPS_ENUM_EDGE_VALUE_WRITE_SENT) Send = Some GPS_ENUM_EDGE_VALUE_WRITE_SENT"
| "spec_transition (Some GPS_ENUM_EDGE_VALUE_SENT_WRITE) Write = Some GPS_ENUM_EDGE_VALUE_SENT_WRITE"
| "spec_transition (Some GPS_ENUM_EDGE_VALUE_SENT_WRITE) Send = Some GPS_ENUM_EDGE_VALUE_ERROR"
| "spec_transition (Some GPS_ENUM_EDGE_VALUE_ERROR) ev = Some GPS_ENUM_EDGE_VALUE_ERROR"

text \<open>
  The code run on a sequence of events, each with the inner loop and the symbol it is
  about: one call of \<^verbatim>\<open>manage_edge_prop_access_state\<close> per event, each on the state
  the previous one left.
\<close>

fun observe_events :: "(nat \<times> nat \<times> access_event) list \<Rightarrow> pass_state \<Rightarrow> failure + pass_state" where
  "observe_events [] st = Inr st"
| "observe_events ((fe, e, ev) # evs) st =
     (case manage_edge_prop_access_state (Some fe) e (op_of ev) st of
        Inl x \<Rightarrow> Inl x
      | Inr (b, st1) \<Rightarrow> observe_events evs st1)"

text \<open>The events of one pair, in the order they were observed.\<close>

fun events_of :: "nat \<Rightarrow> nat \<Rightarrow> (nat \<times> nat \<times> access_event) list \<Rightarrow> access_event list" where
  "events_of fe e [] = []"
| "events_of fe e ((fe', e', ev) # evs) =
     (if fe' = fe \<and> e' = e then ev # events_of fe e evs else events_of fe e evs)"

subsection \<open>The binding rule of the specification\<close>

text \<open>
  Rule 1 of section 4.4 and property P1 of the specification, in their words: the
  binding statements of a symbol are the assignments to it as a scalar; each is inside a
  loop marked as inner loop or not; the symbol is bound as the rule asks when its unique
  binding statement is a conversion of the iterator to its edge inside such a loop.
\<close>

definition is_iterator_to_edge :: "ast_expr \<Rightarrow> bool" where
  "is_iterator_to_edge rhs =
     (case expr_class (expr_node rhs) of
        EXPR_BUILTIN b \<Rightarrow> get_method_id b = GM_BLTIN_NODE_TO_EDGE
      | _ \<Rightarrow> False)"

fun bindings_sent :: "(nat \<Rightarrow> bool) \<Rightarrow> nat \<Rightarrow> bool \<Rightarrow> ast_sent \<Rightarrow> (bool \<times> ast_expr) list"
  and bindings_sents :: "(nat \<Rightarrow> bool) \<Rightarrow> nat \<Rightarrow> bool \<Rightarrow> ast_sent list \<Rightarrow> (bool \<times> ast_expr) list" where
  "bindings_sent is_inner a inside (Sent ad cl syms es body) =
     (case cl of
        SENT_ASSIGN (LHS_SCALA i) rhs \<Rightarrow>
          if sym_addr (getSymInfo i) = a then [(inside, rhs)] else []
      | _ \<Rightarrow> [])
     @ bindings_sents is_inner a
         (inside \<or> (get_nodetype cl = AST_FOREACH \<and> is_inner ad)) body"
| "bindings_sents is_inner a inside [] = []"
| "bindings_sents is_inner a inside (s # ss) =
     bindings_sent is_inner a inside s @ bindings_sents is_inner a inside ss"

definition bound_by_iterator_to_edge :: "(nat \<Rightarrow> bool) \<Rightarrow> ast_procdef \<Rightarrow> nat \<Rightarrow> bool" where
  "bound_by_iterator_to_edge is_inner proc a =
     (case bindings_sent is_inner a False (proc_body proc) of
        [(inside, rhs)] \<Rightarrow> inside \<and> is_iterator_to_edge rhs
      | _ \<Rightarrow> False)"

subsection \<open>Auxiliary notions used in the statements and proofs\<close>

text \<open>The reports of one kind in the log, in the order they were made.\<close>

definition reports_of :: "gm_error_t \<Rightarrow> pass_state \<Rightarrow> diagnostic list" where
  "reports_of k st = filter (\<lambda>d. diag_kind d = k) (backend_errors st)"

text \<open>The state the assignment handler leaves on its write path, in closed form.\<close>

definition write_path :: "nat \<Rightarrow> nat \<Rightarrow> ast_field \<Rightarrow> bool \<Rightarrow> pass_state \<Rightarrow> pass_state" where
  "write_path a l f cond st =
     st\<lparr>error_flag := cond \<or> error_flag st,
        target_is_edge_prop := True,
        GPS_MAP_EDGE_PROP_ACCESS :=
          (GPS_MAP_EDGE_PROP_ACCESS st)
            ((l, sym_addr (getSymInfo (get_second f))) :=
               spec_transition (GPS_MAP_EDGE_PROP_ACCESS st (l, sym_addr (getSymInfo (get_second f)))) Write),
        GPS_LIST_EDGE_PROP_WRITE :=
          (GPS_LIST_EDGE_PROP_WRITE st)(l := GPS_LIST_EDGE_PROP_WRITE st l @ [a]),
        backend_errors := backend_errors st @
          (if cond then [Diag GM_ERROR_GPS_EDGE_WRITE_CONDITIONAL (field_line f) (field_col f) None]
           else [])\<rparr>"

text \<open>What the test of (case 2) reports for one expression.\<close>

definition rhs_report :: "gps_consts \<Rightarrow> ast_expr_node \<Rightarrow> pass_state \<Rightarrow> diagnostic list" where
  "rhs_report K e st =
     (if target_is_edge_prop st
         \<and> (of_bool (info_bool_EXPR_SCOPE e) = GPS_NEW_SCOPE_IN K
            \<or> of_bool (info_bool_EXPR_SCOPE e) = GPS_NEW_SCOPE_RANDOM K)
      then (case expr_class e of
              EXPR_FIELD f \<Rightarrow>
                [Diag GM_ERROR_GPS_EDGE_WRITE_RHS (field_line f) (field_col f)
                   (Some (get_orgname (get_first f)))]
            | EXPR_ID i \<Rightarrow>
                [Diag GM_ERROR_GPS_EDGE_WRITE_RHS (id_line i) (id_col i) (Some (get_orgname i))]
            | _ \<Rightarrow> [])
      else [])"

subsection \<open>The scenarios of the specification, as inputs\<close>

text \<open>The symbols of the scenarios.\<close>

definition mk_sym :: "nat \<Rightarrow> bool \<Rightarrow> bool \<Rightarrow> gm_symtab_entry" where
  "mk_sym a e c = \<lparr>sym_addr = a, type_is_edge = e, type_is_edge_compatible = c\<rparr>"

definition mk_id :: "gm_symtab_entry \<Rightarrow> string \<Rightarrow> int \<Rightarrow> int \<Rightarrow> ast_id" where
  "mk_id s n l c = \<lparr>getSymInfo = s, get_orgname = n, id_line = l, id_col = c\<rparr>"

definition mk_field :: "ast_id \<Rightarrow> ast_id \<Rightarrow> bool \<Rightarrow> ast_field" where
  "mk_field b m ec = \<lparr>get_first = b, get_second = m, field_line = id_line b, field_col = id_col b,
                       source_type_is_edge_compatible = ec\<rparr>"

definition mk_expr :: "expr_class_t \<Rightarrow> bool \<Rightarrow> ast_expr list \<Rightarrow> ast_expr" where
  "mk_expr c b es = Expr \<lparr>expr_class = c, info_bool_EXPR_SCOPE = b\<rparr> es"

definition sym_n :: gm_symtab_entry where "sym_n = mk_sym 11 False False"
definition sym_s :: gm_symtab_entry where "sym_s = mk_sym 12 False False"
definition sym_e :: gm_symtab_entry where "sym_e = mk_sym 13 True True"
definition sym_f :: gm_symtab_entry where "sym_f = mk_sym 14 True True"
definition sym_x :: gm_symtab_entry where "sym_x = mk_sym 15 False False"
definition sym_A :: gm_symtab_entry where "sym_A = mk_sym 21 False False"
definition sym_B :: gm_symtab_entry where "sym_B = mk_sym 22 False False"
definition sym_C :: gm_symtab_entry where "sym_C = mk_sym 23 False False"
definition sym_Y :: gm_symtab_entry where "sym_Y = mk_sym 24 False False"
definition sym_Z :: gm_symtab_entry where "sym_Z = mk_sym 25 False False"

text \<open>An edge property read or written through \<open>e\<close>, and a node property through a node.\<close>

definition edge_prop :: "gm_symtab_entry \<Rightarrow> string \<Rightarrow> gm_symtab_entry \<Rightarrow> string \<Rightarrow> int \<Rightarrow> int \<Rightarrow> ast_field" where
  "edge_prop b bn m mn l c = mk_field (mk_id b bn l c) (mk_id m mn l (c + 2)) True"

definition node_prop :: "gm_symtab_entry \<Rightarrow> string \<Rightarrow> gm_symtab_entry \<Rightarrow> string \<Rightarrow> int \<Rightarrow> int \<Rightarrow> ast_field" where
  "node_prop b bn m mn l c = mk_field (mk_id b bn l c) (mk_id m mn l (c + 2)) False"

definition to_edge_of_s :: "int \<Rightarrow> int \<Rightarrow> ast_expr" where
  "to_edge_of_s l c =
     mk_expr (EXPR_BUILTIN \<lparr>get_driver = Some (mk_id sym_s ''s'' l c),
                            get_method_id = GM_BLTIN_NODE_TO_EDGE\<rparr>) False []"

text \<open>
  The two nested loops of the scenarios around a body: the outer loop at address 1, the
  inner loop at address 2, marked as inner loop by \<open>inner_loops\<close>, and the body block at
  address 3, which declares \<open>e\<close>.
\<close>

definition inner_loops :: "nat \<Rightarrow> bool" where
  "inner_loops a = (a = 2)"

definition two_loops :: "ast_sent list \<Rightarrow> ast_procdef" where
  "two_loops body =
     \<lparr>proc_addr = 0, proc_symtab = [sym_A, sym_B, sym_C, sym_Y, sym_Z, sym_f],
      proc_body =
        Sent 1 (SENT_FOREACH (mk_id sym_n ''n'' 1 9)) [sym_n] []
          [Sent 2 (SENT_FOREACH (mk_id sym_s ''s'' 2 11)) [sym_s] []
             [Sent 3 SENT_BLOCK [sym_e] [] body]]\<rparr>"

text \<open>
  The statements of scenarios A and B: \<^verbatim>\<open>Edge e = s.ToEdge();\<close>,
  \<^verbatim>\<open>e.A = n.Y;\<close>, \<^verbatim>\<open>e.A = 0;\<close>, \<^verbatim>\<open>e.B = n.Y + 1;\<close>,
  \<^verbatim>\<open>s.Z += e.A + e.B;\<close> and \<^verbatim>\<open>s.Z += e.B;\<close>, each with the address of
  the statement and its line.
\<close>

definition bind_e :: ast_sent where
  "bind_e = Sent 4 (SENT_ASSIGN (LHS_SCALA (mk_id sym_e ''e'' 3 13)) (to_edge_of_s 3 17)) [] [] []"

definition write_e_A :: "nat \<Rightarrow> int \<Rightarrow> ast_sent" where
  "write_e_A a l =
     Sent a (SENT_ASSIGN (LHS_FIELD (edge_prop sym_e ''e'' sym_A ''A'' l 5))
               (mk_expr (EXPR_FIELD (node_prop sym_n ''n'' sym_Y ''Y'' l 11)) False [])) [] [] []"

definition write_e_A_0 :: "nat \<Rightarrow> int \<Rightarrow> ast_sent" where
  "write_e_A_0 a l =
     Sent a (SENT_ASSIGN (LHS_FIELD (edge_prop sym_e ''e'' sym_A ''A'' l 5))
               (mk_expr EXPR_OTHER False [])) [] [] []"

definition write_e_B :: "nat \<Rightarrow> int \<Rightarrow> ast_sent" where
  "write_e_B a l =
     Sent a (SENT_ASSIGN (LHS_FIELD (edge_prop sym_e ''e'' sym_B ''B'' l 5))
               (mk_expr EXPR_OTHER False
                  [mk_expr (EXPR_FIELD (node_prop sym_n ''n'' sym_Y ''Y'' l 11)) False [],
                   mk_expr EXPR_OTHER False []])) [] [] []"

definition send_e_A_e_B :: "nat \<Rightarrow> int \<Rightarrow> ast_sent" where
  "send_e_A_e_B a l =
     Sent a (SENT_ASSIGN (LHS_FIELD (node_prop sym_s ''s'' sym_Z ''Z'' l 5))
               (mk_expr EXPR_OTHER False
                  [mk_expr (EXPR_FIELD (edge_prop sym_e ''e'' sym_A ''A'' l 12)) False [],
                   mk_expr (EXPR_FIELD (edge_prop sym_e ''e'' sym_B ''B'' l 18)) False []])) [] [] []"

definition send_e_B :: "nat \<Rightarrow> int \<Rightarrow> ast_sent" where
  "send_e_B a l =
     Sent a (SENT_ASSIGN (LHS_FIELD (node_prop sym_s ''s'' sym_Z ''Z'' l 5))
               (mk_expr (EXPR_FIELD (edge_prop sym_e ''e'' sym_B ''B'' l 12)) False [])) [] [] []"

definition scenario_A :: ast_procdef where
  "scenario_A = two_loops [bind_e, write_e_A 5 4, send_e_A_e_B 6 5, write_e_B 7 6, write_e_A_0 8 7]"

definition scenario_B :: ast_procdef where
  "scenario_B = two_loops [bind_e, write_e_A 5 4, send_e_A_e_B 6 5, write_e_B 7 6,
                           send_e_B 8 7, write_e_A_0 9 8, send_e_B 10 9]"

text \<open>Scenario C: \<^verbatim>\<open>if (s.Y > 10) e.C = 10;\<close> in the inner loop.\<close>

definition write_e_C :: "nat \<Rightarrow> int \<Rightarrow> ast_sent" where
  "write_e_C a l =
     Sent a (SENT_ASSIGN (LHS_FIELD (edge_prop sym_e ''e'' sym_C ''C'' l 18))
               (mk_expr EXPR_OTHER False [])) [] [] []"

definition scenario_C :: ast_procdef where
  "scenario_C =
     two_loops [bind_e,
       Sent 5 SENT_IF []
         [mk_expr EXPR_OTHER False
            [mk_expr (EXPR_FIELD (node_prop sym_s ''s'' sym_Y ''Y'' 4 9)) False [],
             mk_expr EXPR_OTHER False []]]
         [write_e_C 6 4]]"

text \<open>
  Scenario D: \<^verbatim>\<open>e.B = s.Y;\<close> with the inner iterator \<open>s\<close>; \<open>b\<close> is what
  \<^verbatim>\<open>find_info_bool(GPS_INT_EXPR_SCOPE)\<close> returns for \<^verbatim>\<open>s.Y\<close>.
\<close>

definition read_s_Y :: "bool \<Rightarrow> ast_expr" where
  "read_s_Y b = mk_expr (EXPR_FIELD (node_prop sym_s ''s'' sym_Y ''Y'' 4 11)) b []"

definition scenario_D :: "bool \<Rightarrow> ast_procdef" where
  "scenario_D b =
     two_loops [bind_e,
       Sent 5 (SENT_ASSIGN (LHS_FIELD (edge_prop sym_e ''e'' sym_B ''B'' 4 5)) (read_s_Y b))
         [] [] []]"

text \<open>
  Scenario E: \<^verbatim>\<open>Int x = f.A;\<close> where the edge \<open>f\<close> is declared outside the loops;
  and a write \<^verbatim>\<open>f.A = n.Y;\<close> through the same edge.
\<close>

definition read_f_A :: ast_expr where
  "read_f_A = mk_expr (EXPR_FIELD (edge_prop sym_f ''f'' sym_A ''A'' 4 13)) False []"

definition scenario_E :: ast_procdef where
  "scenario_E =
     two_loops [bind_e,
       Sent 5 (SENT_ASSIGN (LHS_SCALA (mk_id sym_x ''x'' 4 9)) read_f_A) [] [] []]"

definition write_f_A :: "nat \<Rightarrow> int \<Rightarrow> ast_sent" where
  "write_f_A a l =
     Sent a (SENT_ASSIGN (LHS_FIELD (edge_prop sym_f ''f'' sym_A ''A'' l 5))
               (mk_expr (EXPR_FIELD (node_prop sym_n ''n'' sym_Y ''Y'' l 11)) False [])) [] [] []"

text \<open>
  The edge \<open>e\<close> declared in the inner loop and bound by a copy, \<^verbatim>\<open>Edge e = f;\<close>,
  with no conversion of the iterator anywhere.
\<close>

definition copy_f_to_e :: ast_procdef where
  "copy_f_to_e =
     two_loops
       [Sent 4 (SENT_ASSIGN (LHS_SCALA (mk_id sym_e ''e'' 3 13))
                  (mk_expr (EXPR_ID (mk_id sym_f ''f'' 3 17)) False [])) [] [] []]"

text \<open>
  Several violations in one procedure: the statements of scenario B, then the conditional
  write of scenario C and the read of scenario E.
\<close>

definition scenario_many :: ast_procdef where
  "scenario_many =
     two_loops [bind_e, write_e_A 5 4, send_e_A_e_B 6 5, write_e_B 7 6, send_e_B 8 7,
       Sent 9 SENT_IF [] [mk_expr EXPR_OTHER False []] [write_e_C 10 8],
       Sent 11 (SENT_ASSIGN (LHS_SCALA (mk_id sym_x ''x'' 9 9))
                  (mk_expr (EXPR_FIELD (edge_prop sym_f ''f'' sym_A ''A'' 9 13)) False []))
         [] [] []]"

text \<open>The chain of parents of a statement of the body block of the scenarios.\<close>

definition body_parents :: parent_chain where
  "body_parents = [(3, AST_SENTBLOCK), (2, AST_FOREACH), (1, AST_FOREACH), (0, AST_PROCDEF)]"

text \<open>Sample values for the two scope constants, neither of them 0 or 1.\<close>

definition header_34 :: gps_consts where
  "header_34 = \<lparr>GPS_NEW_SCOPE_IN = 3, GPS_NEW_SCOPE_RANDOM = 4\<rparr>"


text \<open>
  A state of the run inside the inner loop of the scenarios, after the declaration of
  \<open>e\<close> was visited.
\<close>

definition inside_inner_loop :: pass_state where
  "inside_inner_loop =
     (new_gps_check_edge_value_t inner_loops)
       \<lparr>inner_iter := Some 12, inner_loop := Some 2,
        GPS_FLAG_EDGE_DEFINED_INNER := (\<lambda>a. a = 13),
        GPS_FLAG_EDGE_DEFINING_INNER := (\<lambda>a. a = 2)\<rparr>"

subsection \<open>The callback invocations of a walk, in order\<close>

text \<open>
  One invocation of a callback: of the symbol callback on an entry, of the statement
  callback on a statement with its chain of parents, of the expression callback on an
  expression node, of \<^verbatim>\<open>apply2\<close> on a statement.
\<close>

datatype visit =
    VISIT_SYMTAB gm_symtab_entry
  | VISIT_SENT parent_chain ast_sent
  | VISIT_EXPR ast_expr_node
  | VISIT_POST ast_sent

text \<open>
  The invocations on a tree in the order of section 4.3 when no callback ever signals
  stop: every expression node before its sub-expressions; a statement, then the entries
  declared at it, its expressions, its child statements, and last its post visit.
\<close>

fun visits_expr :: "ast_expr \<Rightarrow> visit list"
  and visits_exprs :: "ast_expr list \<Rightarrow> visit list" where
  "visits_expr (Expr n es) = VISIT_EXPR n # visits_exprs es"
| "visits_exprs [] = []"
| "visits_exprs (e # es) = visits_expr e @ visits_exprs es"

fun visits_sent :: "parent_chain \<Rightarrow> ast_sent \<Rightarrow> visit list"
  and visits_sents :: "parent_chain \<Rightarrow> ast_sent list \<Rightarrow> visit list" where
  "visits_sent ps (Sent a cl syms es body) =
     VISIT_SENT ps (Sent a cl syms es body) # map VISIT_SYMTAB syms
     @ visits_exprs (sub_exprs (Sent a cl syms es body))
     @ visits_sents ((a, get_nodetype cl) # ps) body
     @ [VISIT_POST (Sent a cl syms es body)]"
| "visits_sents ps [] = []"
| "visits_sents ps (s # ss) = visits_sent ps s @ visits_sents ps ss"

definition visits_proc :: "ast_procdef \<Rightarrow> visit list" where
  "visits_proc proc =
     map VISIT_SYMTAB (proc_symtab proc)
     @ visits_sent [(proc_addr proc, AST_PROCDEF)] (proc_body proc)"

text \<open>A list of invocations run one after the other, whatever signal each returns.\<close>

fun callback :: "gps_consts \<Rightarrow> visit \<Rightarrow> pass_state \<Rightarrow> failure + bool \<times> pass_state" where
  "callback K (VISIT_SYMTAB e) st = apply_symtab e st"
| "callback K (VISIT_SENT ps s) st = apply_sent ps s st"
| "callback K (VISIT_EXPR e) st = apply_expr K e st"
| "callback K (VISIT_POST s) st = apply2 s st"

fun run_visits :: "gps_consts \<Rightarrow> visit list \<Rightarrow> pass_state \<Rightarrow> failure + pass_state" where
  "run_visits K [] st = Inr st"
| "run_visits K (v # vs) st =
     (case callback K v st of
        Inl x \<Rightarrow> Inl x
      | Inr (c, st1) \<Rightarrow> run_visits K vs st1)"

text \<open>All four switches of the walk are on.\<close>

definition all_on :: "pass_state \<Rightarrow> bool" where
  "all_on st \<longleftrightarrow> for_symtab st \<and> for_sent st \<and> for_expr st \<and> separate_post_apply st"

text \<open>A result of a list, as the result of a node that signals continue.\<close>

definition continue_with :: "failure + pass_state \<Rightarrow> failure + bool \<times> pass_state" where
  "continue_with r = (case r of Inl x \<Rightarrow> Inl x | Inr st \<Rightarrow> Inr (True, st))"

subsection \<open>Two predicates on the state and on the constants\<close>

text \<open>The error flag is set exactly when something was reported.\<close>

definition flag_agrees :: "pass_state \<Rightarrow> bool" where
  "flag_agrees st \<longleftrightarrow> (error_flag st \<longleftrightarrow> backend_errors st \<noteq> [])"

text \<open>Neither scope constant is a value that a promoted \<^verbatim>\<open>bool\<close> takes.\<close>

definition scope_constants_not_bool :: "gps_consts \<Rightarrow> bool" where
  "scope_constants_not_bool K \<longleftrightarrow>
     GPS_NEW_SCOPE_IN K \<noteq> 0 \<and> GPS_NEW_SCOPE_IN K \<noteq> 1
     \<and> GPS_NEW_SCOPE_RANDOM K \<noteq> 0 \<and> GPS_NEW_SCOPE_RANDOM K \<noteq> 1"

section \<open>Properties\<close>

subsection \<open>The state machine\<close>

lemma manage_eq:
  "manage_edge_prop_access_state (Some fe) e (op_of ev) st
     = Inr (ev = Send \<and> GPS_MAP_EDGE_PROP_ACCESS st (fe, e) = Some GPS_ENUM_EDGE_VALUE_SENT_WRITE,
            st\<lparr>GPS_MAP_EDGE_PROP_ACCESS :=
                 (GPS_MAP_EDGE_PROP_ACCESS st)
                   ((fe, e) := spec_transition (GPS_MAP_EDGE_PROP_ACCESS st (fe, e)) ev)\<rparr>)"
  by (cases ev; cases "GPS_MAP_EDGE_PROP_ACCESS st (fe, e)";
      simp add: manage_edge_prop_access_state_def set_state_def SENDING_def WRITING_def
           fun_upd_idem split: gps_edge_value.split)

lemma manage_WRITING:
  "manage_edge_prop_access_state (Some fe) e WRITING st
     = Inr (False,
            st\<lparr>GPS_MAP_EDGE_PROP_ACCESS :=
                 (GPS_MAP_EDGE_PROP_ACCESS st)
                   ((fe, e) := spec_transition (GPS_MAP_EDGE_PROP_ACCESS st (fe, e)) Write)\<rparr>)"
  using manage_eq [of fe e Write st] by simp

lemma manage_SENDING:
  "manage_edge_prop_access_state (Some fe) e SENDING st
     = Inr (GPS_MAP_EDGE_PROP_ACCESS st (fe, e) = Some GPS_ENUM_EDGE_VALUE_SENT_WRITE,
            st\<lparr>GPS_MAP_EDGE_PROP_ACCESS :=
                 (GPS_MAP_EDGE_PROP_ACCESS st)
                   ((fe, e) := spec_transition (GPS_MAP_EDGE_PROP_ACCESS st (fe, e)) Send)\<rparr>)"
  using manage_eq [of fe e Send st] by simp

lemma manage_null:
  "manage_edge_prop_access_state None e op st = Inl ASSERT_OP
   \<or> manage_edge_prop_access_state None e op st = Inl NULL_DEREF"
  by (simp add: manage_edge_prop_access_state_def)

lemma find_conditional_failure:
  "find_conditional il ps = Inl x \<Longrightarrow> x = ASSERT_PARENT_NOT_NULL"
  by (induction il ps rule: find_conditional.induct) (auto split: if_splits)

lemma check_conditional_failure:
  "check_conditional il ps = Inl x \<Longrightarrow> x = ASSERT_PARENT_NOT_NULL \<or> x = NULL_DEREF"
  by (auto simp add: check_conditional_def split: list.splits if_splits dest: find_conditional_failure)

lemma observe_events_fold:
  "\<exists>st'. observe_events evs st = Inr st'
      \<and> GPS_MAP_EDGE_PROP_ACCESS st' (fe, e)
          = foldl spec_transition (GPS_MAP_EDGE_PROP_ACCESS st (fe, e)) (events_of fe e evs)"
proof (induction evs arbitrary: st)
  case Nil
  show ?case by simp
next
  case (Cons x evs)
  obtain l s ev where x: "x = (l, s, ev)" by (cases x) auto
  define st1 where "st1 = st\<lparr>GPS_MAP_EDGE_PROP_ACCESS :=
                 (GPS_MAP_EDGE_PROP_ACCESS st)
                   ((l, s) := spec_transition (GPS_MAP_EDGE_PROP_ACCESS st (l, s)) ev)\<rparr>"
  have m: "\<exists>b. manage_edge_prop_access_state (Some l) s (op_of ev) st = Inr (b, st1)"
    by (simp add: manage_eq st1_def)
  from Cons.IH [of st1] obtain st' where
    r: "observe_events evs st1 = Inr st'"
    and f: "GPS_MAP_EDGE_PROP_ACCESS st' (fe, e)
          = foldl spec_transition (GPS_MAP_EDGE_PROP_ACCESS st1 (fe, e)) (events_of fe e evs)"
    by blast
  show ?case
  proof (cases "l = fe \<and> s = e")
    case True
    with x m r f show ?thesis by (auto simp add: st1_def)
  next
    case False
    then have "GPS_MAP_EDGE_PROP_ACCESS st1 (fe, e) = GPS_MAP_EDGE_PROP_ACCESS st (fe, e)"
      by (auto simp add: st1_def)
    with False x m r f show ?thesis by auto
  qed
qed

subsection \<open>The callbacks in closed form\<close>

lemma apply_assign_field_write:
  assumes "type_is_edge_compatible (getSymInfo (get_first f))"
    and "GPS_FLAG_EDGE_DEFINED_INNER st (sym_addr (getSymInfo (get_first f)))"
    and "inner_loop st = Some l"
    and "check_conditional (Some l) ps = Inr cond"
  shows "apply_assign_field a ps f st = Inr (True, write_path a l f cond st)"
  using assms
  by (cases cond)
     (simp_all add: apply_assign_field_def Let_def set_error_def gm_backend_error_def
        manage_WRITING write_path_def pass_state.equality)

lemma apply_assign_field_not_assert_b:
  "apply_assign_field a ps f st \<noteq> Inl ASSERT_B_FALSE"
proof (cases "type_is_edge_compatible (getSymInfo (get_first f))
    \<and> GPS_FLAG_EDGE_DEFINED_INNER st (sym_addr (getSymInfo (get_first f)))")
  case False
  then show ?thesis by (auto simp add: apply_assign_field_def Let_def split: if_splits)
next
  case True
  show ?thesis
  proof (cases "check_conditional (inner_loop st) ps")
    case (Inl x)
    with True have "apply_assign_field a ps f st = Inl x"
      by (simp add: apply_assign_field_def Let_def)
    with Inl show ?thesis by (auto dest: check_conditional_failure)
  next
    case (Inr cond)
    show ?thesis
    proof (cases "inner_loop st")
      case None
      with True Inr have "apply_assign_field a ps f st = Inl ASSERT_INNER_LOOP_NOT_NULL"
        by (simp add: apply_assign_field_def Let_def set_error_def gm_backend_error_def)
      then show ?thesis by simp
    next
      case (Some l)
      with True Inr apply_assign_field_write [of f st l ps cond a] show ?thesis by auto
    qed
  qed
qed

lemma apply_assign_scala_not_assert_b:
  "apply_assign_scala a i rhs st \<noteq> Inl ASSERT_B_FALSE"
  by (auto simp add: apply_assign_scala_def Let_def split: expr_class_t.splits option.splits)

lemma check_rhs_scope_eq:
  "check_rhs_scope K e st =
     st\<lparr>error_flag := error_flag st \<or> rhs_report K e st \<noteq> [],
        backend_errors := backend_errors st @ rhs_report K e st\<rparr>"
  by (simp add: check_rhs_scope_def rhs_report_def set_error_def gm_backend_error_def
        pass_state.equality split: expr_class_t.split)

lemma rhs_report_kind: "d \<in> set (rhs_report K e st) \<Longrightarrow> diag_kind d = GM_ERROR_GPS_EDGE_WRITE_RHS"
  by (auto simp add: rhs_report_def split: if_splits expr_class_t.splits)

lemma filter_rhs_report:
  "k \<noteq> GM_ERROR_GPS_EDGE_WRITE_RHS \<Longrightarrow> filter (\<lambda>d. diag_kind d = k) (rhs_report K e st) = []"
  by (auto simp add: filter_empty_conv dest: rhs_report_kind)

lemma check_edge_read_random:
  assumes "expr_class e = EXPR_FIELD f" and "source_type_is_edge_compatible f"
    and "\<not> GPS_FLAG_EDGE_DEFINED_INNER st (sym_addr (getSymInfo (get_first f)))"
  shows "check_edge_read e st =
     Inr (True, st\<lparr>error_flag := True,
                   backend_errors := backend_errors st @
                     [Diag GM_ERROR_GPS_EDGE_READ_RANDOM (field_line f) (field_col f) None]\<rparr>)"
  using assms
  by (simp add: check_edge_read_def set_error_def gm_backend_error_def pass_state.equality)

lemma check_edge_read_send:
  assumes "expr_class e = EXPR_FIELD f" and "source_type_is_edge_compatible f"
    and "GPS_FLAG_EDGE_DEFINED_INNER st (sym_addr (getSymInfo (get_first f)))"
    and "inner_loop st = Some l"
  shows "check_edge_read e st =
     Inr (True,
       st\<lparr>error_flag := error_flag st
              \<or> GPS_MAP_EDGE_PROP_ACCESS st (l, sym_addr (getSymInfo (get_second f)))
                  = Some GPS_ENUM_EDGE_VALUE_SENT_WRITE,
          GPS_MAP_EDGE_PROP_ACCESS :=
            (GPS_MAP_EDGE_PROP_ACCESS st)
              ((l, sym_addr (getSymInfo (get_second f))) :=
                 spec_transition (GPS_MAP_EDGE_PROP_ACCESS st (l, sym_addr (getSymInfo (get_second f)))) Send),
          backend_errors := backend_errors st @
            (if GPS_MAP_EDGE_PROP_ACCESS st (l, sym_addr (getSymInfo (get_second f)))
                  = Some GPS_ENUM_EDGE_VALUE_SENT_WRITE
             then [Diag GM_ERROR_GPS_EDGE_SEND_VERSIONS (field_line f) (field_col f)
                     (Some (get_orgname (get_first f)))]
             else [])\<rparr>)"
  using assms
  by (simp add: check_edge_read_def set_error_def gm_backend_error_def manage_SENDING
        pass_state.equality)

lemma check_edge_read_null:
  assumes "expr_class e = EXPR_FIELD f" and "source_type_is_edge_compatible f"
    and "GPS_FLAG_EDGE_DEFINED_INNER st (sym_addr (getSymInfo (get_first f)))"
    and "inner_loop st = None"
  shows "check_edge_read e st = Inl NULL_DEREF"
  using assms
  by (simp add: check_edge_read_def manage_edge_prop_access_state_def SENDING_def WRITING_def)

lemma check_edge_read_skip:
  assumes "\<forall>f. expr_class e = EXPR_FIELD f \<longrightarrow> \<not> source_type_is_edge_compatible f"
  shows "check_edge_read e st = Inr (True, st)"
  using assms by (auto simp add: check_edge_read_def split: expr_class_t.splits)


lemma apply_assign_field_result:
  assumes "apply_assign_field a ps f st = Inr (c, st')"
  shows "c \<and> (st' = st
                \<and> \<not> (type_is_edge_compatible (getSymInfo (get_first f))
                     \<and> GPS_FLAG_EDGE_DEFINED_INNER st (sym_addr (getSymInfo (get_first f))))
             \<or> (\<exists>l cond. type_is_edge_compatible (getSymInfo (get_first f))
                    \<and> GPS_FLAG_EDGE_DEFINED_INNER st (sym_addr (getSymInfo (get_first f)))
                    \<and> inner_loop st = Some l \<and> check_conditional (Some l) ps = Inr cond
                    \<and> st' = write_path a l f cond st))"
proof (cases "type_is_edge_compatible (getSymInfo (get_first f))
    \<and> GPS_FLAG_EDGE_DEFINED_INNER st (sym_addr (getSymInfo (get_first f)))")
  case False
  with assms show ?thesis by (auto simp add: apply_assign_field_def Let_def split: if_splits)
next
  case True
  show ?thesis
  proof (cases "check_conditional (inner_loop st) ps")
    case (Inl x)
    with True have "apply_assign_field a ps f st = Inl x"
      by (simp add: apply_assign_field_def Let_def)
    with assms show ?thesis by simp
  next
    case (Inr cond)
    show ?thesis
    proof (cases "inner_loop st")
      case None
      with True Inr have "apply_assign_field a ps f st = Inl ASSERT_INNER_LOOP_NOT_NULL"
        by (simp add: apply_assign_field_def Let_def set_error_def gm_backend_error_def)
      with assms show ?thesis by simp
    next
      case (Some l)
      with True Inr assms apply_assign_field_write [of f st l ps cond a] show ?thesis by auto
    qed
  qed
qed

lemma apply_assign_scala_result:
  assumes "apply_assign_scala a i rhs st = Inr (c, st')"
  shows "c \<and> (st' = st
             \<or> st' = st\<lparr>GPS_FLAG_EDGE_DEFINING_WRITE := (GPS_FLAG_EDGE_DEFINING_WRITE st)(a := True)\<rparr>)"
  using assms
  by (auto simp add: apply_assign_scala_def Let_def
        split: expr_class_t.splits option.splits if_splits)

lemma apply_sent_result:
  assumes "apply_sent ps s st = Inr (c, st')"
  shows "c \<and> (st' = st
             \<or> (\<exists>it. sent_class s = SENT_FOREACH it \<and> GPS_FLAG_IS_INNER_LOOP st (sent_addr s)
                    \<and> st' = st\<lparr>inner_iter := Some (sym_addr (getSymInfo it)),
                                inner_loop := Some (sent_addr s)\<rparr>)
             \<or> (\<exists>f rhs l cond. sent_class s = SENT_ASSIGN (LHS_FIELD f) rhs
                    \<and> type_is_edge_compatible (getSymInfo (get_first f))
                    \<and> GPS_FLAG_EDGE_DEFINED_INNER st (sym_addr (getSymInfo (get_first f)))
                    \<and> inner_loop st = Some l \<and> check_conditional (Some l) ps = Inr cond
                    \<and> st' = write_path (sent_addr s) l f cond st)
             \<or> (\<exists>i rhs. sent_class s = SENT_ASSIGN (LHS_SCALA i) rhs
                    \<and> st' = st\<lparr>GPS_FLAG_EDGE_DEFINING_WRITE :=
                                  (GPS_FLAG_EDGE_DEFINING_WRITE st)(sent_addr s := True)\<rparr>))"
proof (cases "sent_class s")
  case (SENT_FOREACH it)
  with assms show ?thesis by (auto simp add: apply_sent_def split: if_splits)
next
  case (SENT_ASSIGN lhs rhs)
  show ?thesis
  proof (cases lhs)
    case (LHS_SCALA i)
    with SENT_ASSIGN assms have "apply_assign_scala (sent_addr s) i rhs st = Inr (c, st')"
      by (simp add: apply_sent_def)
    from apply_assign_scala_result [OF this] SENT_ASSIGN LHS_SCALA show ?thesis by auto
  next
    case (LHS_FIELD f)
    with SENT_ASSIGN assms have "apply_assign_field (sent_addr s) ps f st = Inr (c, st')"
      by (simp add: apply_sent_def)
    from apply_assign_field_result [OF this] SENT_ASSIGN LHS_FIELD show ?thesis by auto
  qed
qed (use assms in \<open>auto simp add: apply_sent_def\<close>)

lemma apply_symtab_result:
  assumes "apply_symtab e st = Inr (c, st')"
  shows "c \<and> (st' = st \<and> \<not> (type_is_edge e \<and> inner_loop st \<noteq> None)
             \<or> (\<exists>l. type_is_edge e \<and> inner_loop st = Some l
                   \<and> st' = st\<lparr>GPS_FLAG_EDGE_DEFINED_INNER :=
                                 (GPS_FLAG_EDGE_DEFINED_INNER st)(sym_addr e := True),
                               GPS_FLAG_EDGE_DEFINING_INNER :=
                                 (GPS_FLAG_EDGE_DEFINING_INNER st)(l := True)\<rparr>))"
  using assms by (auto simp add: apply_symtab_def split: option.splits if_splits)

lemma apply2_result:
  assumes "apply2 s st = Inr (c, st')"
  shows "c \<and> (st' = st
             \<or> (\<exists>it. sent_class s = SENT_FOREACH it \<and> inner_loop st = Some (sent_addr s)
                   \<and> st' = st\<lparr>inner_loop := None, inner_iter := None\<rparr>)
             \<or> (\<exists>l r. sent_class s = SENT_ASSIGN l r \<and> st' = st\<lparr>target_is_edge_prop := False\<rparr>))"
  using assms by (auto simp add: apply2_def split: sent_class_t.splits if_splits)

lemma check_rhs_scope_frame:
  "GPS_FLAG_EDGE_DEFINED_INNER (check_rhs_scope K e st) = GPS_FLAG_EDGE_DEFINED_INNER st"
  "GPS_FLAG_EDGE_DEFINING_INNER (check_rhs_scope K e st) = GPS_FLAG_EDGE_DEFINING_INNER st"
  "GPS_FLAG_EDGE_DEFINING_WRITE (check_rhs_scope K e st) = GPS_FLAG_EDGE_DEFINING_WRITE st"
  "GPS_FLAG_IS_INNER_LOOP (check_rhs_scope K e st) = GPS_FLAG_IS_INNER_LOOP st"
  "GPS_MAP_EDGE_PROP_ACCESS (check_rhs_scope K e st) = GPS_MAP_EDGE_PROP_ACCESS st"
  "GPS_LIST_EDGE_PROP_WRITE (check_rhs_scope K e st) = GPS_LIST_EDGE_PROP_WRITE st"
  "inner_loop (check_rhs_scope K e st) = inner_loop st"
  "inner_iter (check_rhs_scope K e st) = inner_iter st"
  "target_is_edge_prop (check_rhs_scope K e st) = target_is_edge_prop st"
  "for_sent (check_rhs_scope K e st) = for_sent st"
  "for_expr (check_rhs_scope K e st) = for_expr st"
  "for_symtab (check_rhs_scope K e st) = for_symtab st"
  "separate_post_apply (check_rhs_scope K e st) = separate_post_apply st"
  "error_flag (check_rhs_scope K e st) = (error_flag st \<or> rhs_report K e st \<noteq> [])"
  "backend_errors (check_rhs_scope K e st) = backend_errors st @ rhs_report K e st"
  by (simp_all add: check_rhs_scope_eq)

text \<open>The three ways the expression callback returns.\<close>

lemma apply_expr_result:
  assumes "apply_expr K e st = Inr (c, st')"
  shows "c \<and> (st' = check_rhs_scope K e st
                 \<and> (\<forall>f. expr_class e = EXPR_FIELD f \<longrightarrow> \<not> source_type_is_edge_compatible f)
             \<or> (\<exists>f. expr_class e = EXPR_FIELD f \<and> source_type_is_edge_compatible f
                   \<and> \<not> GPS_FLAG_EDGE_DEFINED_INNER st (sym_addr (getSymInfo (get_first f)))
                   \<and> st' = (check_rhs_scope K e st)\<lparr>error_flag := True,
                              backend_errors := backend_errors (check_rhs_scope K e st) @
                                [Diag GM_ERROR_GPS_EDGE_READ_RANDOM (field_line f) (field_col f) None]\<rparr>)
             \<or> (\<exists>f l. expr_class e = EXPR_FIELD f \<and> source_type_is_edge_compatible f
                   \<and> GPS_FLAG_EDGE_DEFINED_INNER st (sym_addr (getSymInfo (get_first f)))
                   \<and> inner_loop st = Some l
                   \<and> st' = (check_rhs_scope K e st)
                       \<lparr>error_flag := error_flag (check_rhs_scope K e st)
                           \<or> GPS_MAP_EDGE_PROP_ACCESS st (l, sym_addr (getSymInfo (get_second f)))
                               = Some GPS_ENUM_EDGE_VALUE_SENT_WRITE,
                        GPS_MAP_EDGE_PROP_ACCESS :=
                          (GPS_MAP_EDGE_PROP_ACCESS st)
                            ((l, sym_addr (getSymInfo (get_second f))) :=
                               spec_transition
                                 (GPS_MAP_EDGE_PROP_ACCESS st (l, sym_addr (getSymInfo (get_second f))))
                                 Send),
                        backend_errors := backend_errors (check_rhs_scope K e st) @
                          (if GPS_MAP_EDGE_PROP_ACCESS st (l, sym_addr (getSymInfo (get_second f)))
                                = Some GPS_ENUM_EDGE_VALUE_SENT_WRITE
                           then [Diag GM_ERROR_GPS_EDGE_SEND_VERSIONS (field_line f) (field_col f)
                                   (Some (get_orgname (get_first f)))]
                           else [])\<rparr>))"
proof (cases "\<exists>f. expr_class e = EXPR_FIELD f \<and> source_type_is_edge_compatible f")
  case False
  then have "\<forall>f. expr_class e = EXPR_FIELD f \<longrightarrow> \<not> source_type_is_edge_compatible f" by blast
  from check_edge_read_skip [OF this, of "check_rhs_scope K e st"] assms this
  show ?thesis by (simp add: apply_expr_def)
next
  case True
  then obtain f where f: "expr_class e = EXPR_FIELD f" "source_type_is_edge_compatible f" by blast
  show ?thesis
  proof (cases "GPS_FLAG_EDGE_DEFINED_INNER st (sym_addr (getSymInfo (get_first f)))")
    case False
    then have "\<not> GPS_FLAG_EDGE_DEFINED_INNER (check_rhs_scope K e st) (sym_addr (getSymInfo (get_first f)))"
      by (simp add: check_rhs_scope_frame)
    from check_edge_read_random [OF f this] assms f False
    show ?thesis by (auto simp add: apply_expr_def)
  next
    case flag: True
    then have fl: "GPS_FLAG_EDGE_DEFINED_INNER (check_rhs_scope K e st) (sym_addr (getSymInfo (get_first f)))"
      by (simp add: check_rhs_scope_frame)
    show ?thesis
    proof (cases "inner_loop st")
      case None
      then have "inner_loop (check_rhs_scope K e st) = None" by (simp add: check_rhs_scope_frame)
      from check_edge_read_null [OF f fl this] assms show ?thesis by (simp add: apply_expr_def)
    next
      case (Some l)
      then have "inner_loop (check_rhs_scope K e st) = Some l" by (simp add: check_rhs_scope_frame)
      from check_edge_read_send [OF f fl this] assms f flag Some
      show ?thesis by (auto simp add: apply_expr_def check_rhs_scope_frame)
    qed
  qed
qed


lemma reports_of_append:
  "backend_errors st' = backend_errors st @ ds
   \<Longrightarrow> reports_of k st' = reports_of k st @ filter (\<lambda>d. diag_kind d = k) ds"
  by (simp add: reports_of_def)

lemma reports_of_check_rhs_scope:
  "k \<noteq> GM_ERROR_GPS_EDGE_WRITE_RHS \<Longrightarrow> reports_of k (check_rhs_scope K e st) = reports_of k st"
  by (simp add: reports_of_def check_rhs_scope_frame filter_rhs_report)

lemma find_conditional_between:
  "l \<in> fst ` set ps \<Longrightarrow>
   find_conditional (Some l) ps
     = Inr (\<exists>pk \<in> set (takeWhile (\<lambda>pk. fst pk \<noteq> l) ps).
              snd pk = AST_WHILE \<or> snd pk = AST_IF \<or> snd pk = AST_FOREACH)"
proof (induction ps)
  case Nil
  then show ?case by simp
next
  case (Cons pk ps)
  obtain p k where pk: "pk = (p, k)" by (cases pk)
  show ?case
  proof (cases "p = l")
    case True
    with pk show ?thesis by simp
  next
    case False
    show ?thesis
    proof (cases "k = AST_WHILE \<or> k = AST_IF \<or> k = AST_FOREACH")
      case True
      with False pk show ?thesis by auto
    next
      case nk: False
      from Cons.prems False pk have "l \<in> fst ` set ps" by auto
      from Cons.IH [OF this] False nk pk show ?thesis by simp
    qed
  qed
qed

lemma check_conditional_between:
  "l \<in> fst ` set ps \<Longrightarrow>
   check_conditional (Some l) ps
     = Inr (\<exists>pk \<in> set (takeWhile (\<lambda>pk. fst pk \<noteq> l) ps).
              snd pk = AST_WHILE \<or> snd pk = AST_IF \<or> snd pk = AST_FOREACH)"
  using find_conditional_between [of l ps]
  by (cases ps) (simp_all add: check_conditional_def)

subsection \<open>The walk keeps what every callback keeps\<close>

text \<open>A property of the state that every callback keeps is kept by the whole walk.\<close>

lemma apply_symtabs_preserves:
  assumes sym: "\<And>e st c st'. P st \<Longrightarrow> apply_symtab e st = Inr (c, st') \<Longrightarrow> P st'"
    and "P st" and "apply_symtabs es st = Inr st'"
  shows "P st'"
  using assms(2,3)
proof (induction es arbitrary: st)
  case Nil
  then show ?case by simp
next
  case (Cons e es)
  show ?case
  proof (cases "for_symtab st")
    case False
    with Cons show ?thesis by simp
  next
    case True
    with Cons.prems obtain c st1 where a: "apply_symtab e st = Inr (c, st1)"
      by (cases "apply_symtab e st") auto
    from sym [OF Cons.prems(1) a] have p1: "P st1" .
    show ?thesis
    proof (cases c)
      case True
      with \<open>for_symtab st\<close> a Cons.prems(2) have "apply_symtabs es st1 = Inr st'" by simp
      from Cons.IH [OF p1 this] show ?thesis .
    next
      case False
      with \<open>for_symtab st\<close> a Cons.prems(2) p1 show ?thesis by simp
    qed
  qed
qed

lemma traverse_expr_preserves:
  assumes expr: "\<And>K e st c st'. Q K \<Longrightarrow> P st \<Longrightarrow> apply_expr K e st = Inr (c, st') \<Longrightarrow> P st'"
  shows "Q K \<Longrightarrow> P st \<Longrightarrow> traverse_expr K e st = Inr (c, st') \<Longrightarrow> P st'"
    and "Q K \<Longrightarrow> P st \<Longrightarrow> traverse_exprs K es st = Inr st' \<Longrightarrow> P st'"
proof (induction K e st and K es st arbitrary: c st' and st'
       rule: traverse_expr_traverse_exprs.induct)
  case (1 K n es st)
  define r where "r = (if for_expr st then apply_expr K n st else Inr (True, st))"
  have t: "traverse_expr K (Expr n es) st =
     (case r of
        Inl x \<Rightarrow> Inl x
      | Inr (c, st1) \<Rightarrow>
          if c then
            (case traverse_exprs K es st1 of
               Inl x \<Rightarrow> Inl x
             | Inr st2 \<Rightarrow> Inr (True, st2))
          else Inr (False, st1))"
    by (simp add: r_def)
  from "1.prems"(3) t obtain c1 st1 where r: "r = Inr (c1, st1)"
    by (cases r) auto
  have p1: "P st1"
  proof (cases "for_expr st")
    case True
    with r have "apply_expr K n st = Inr (c1, st1)" by (simp add: r_def)
    from expr [OF "1.prems"(1,2) this] show ?thesis .
  next
    case False
    with r "1.prems"(2) show ?thesis by (simp add: r_def)
  qed
  show ?case
  proof (cases c1)
    case False
    with r t "1.prems"(3) p1 show ?thesis by simp
  next
    case True
    with r t "1.prems"(3) have "traverse_exprs K es st1 = Inr st'"
      by (cases "traverse_exprs K es st1") auto
    from "1.IH" [of "(c1, st1)" c1 st1 st', OF _ _ True "1.prems"(1) p1 this] r
    show ?thesis by (simp add: r_def)
  qed
next
  case (2 K st)
  then show ?case by simp
next
  case (3 K e es st)
  from "3.prems"(3) obtain c1 st1 where a: "traverse_expr K e st = Inr (c1, st1)"
    by (cases "traverse_expr K e st") auto
  from "3.IH"(1) [OF "3.prems"(1,2) a] have p1: "P st1" .
  show ?case
  proof (cases c1)
    case False
    with a "3.prems"(3) p1 show ?thesis by simp
  next
    case True
    with a "3.prems"(3) have "traverse_exprs K es st1 = Inr st'" by simp
    from "3.IH"(2) [of "(c1, st1)" c1 st1 st', OF a _ True "3.prems"(1) p1 this]
    show ?thesis by simp
  qed
qed


lemma traverse_sent_preserves:
  assumes sym: "\<And>e st c st'. P st \<Longrightarrow> apply_symtab e st = Inr (c, st') \<Longrightarrow> P st'"
    and sent: "\<And>ps s st c st'. P st \<Longrightarrow> apply_sent ps s st = Inr (c, st') \<Longrightarrow> P st'"
    and expr: "\<And>K e st c st'. Q K \<Longrightarrow> P st \<Longrightarrow> apply_expr K e st = Inr (c, st') \<Longrightarrow> P st'"
    and post: "\<And>s st c st'. P st \<Longrightarrow> apply2 s st = Inr (c, st') \<Longrightarrow> P st'"
  shows "Q K \<Longrightarrow> P st \<Longrightarrow> traverse_sent K ps s st = Inr (c, st') \<Longrightarrow> P st'"
    and "Q K \<Longrightarrow> P st \<Longrightarrow> traverse_sents K ps ss st = Inr st' \<Longrightarrow> P st'"
proof (induction K ps s st and K ps ss st arbitrary: c st' and st'
       rule: traverse_sent_traverse_sents.induct)
  case (1 K ps a cl syms es body st)
  define s where "s = Sent a cl syms es body"
  define r where "r = (if for_sent st then apply_sent ps s st else Inr (True, st))"
  have t: "traverse_sent K ps s st =
     (case r of
        Inl x \<Rightarrow> Inl x
      | Inr (c, st1) \<Rightarrow>
          if \<not> c then Inr (False, st1)
          else
            (case apply_symtabs syms st1 of
               Inl x \<Rightarrow> Inl x
             | Inr st2 \<Rightarrow>
                 (case traverse_exprs K (sub_exprs s) st2 of
                    Inl x \<Rightarrow> Inl x
                  | Inr st3 \<Rightarrow>
                      (case traverse_sents K ((a, get_nodetype cl) # ps) body st3 of
                         Inl x \<Rightarrow> Inl x
                       | Inr st4 \<Rightarrow>
                           if for_sent st4 \<and> separate_post_apply st4
                           then apply2 s st4
                           else Inr (True, st4)))))"
    unfolding r_def s_def by (rule traverse_sent.simps(1))
  from "1.prems"(3) have res: "traverse_sent K ps s st = Inr (c, st')" by (simp add: s_def)
  from res t obtain c1 st1 where r: "r = Inr (c1, st1)"
    by (cases r) auto
  have p1: "P st1"
  proof (cases "for_sent st")
    case True
    with r have "apply_sent ps s st = Inr (c1, st1)" by (simp add: r_def)
    from sent [OF "1.prems"(2) this] show ?thesis .
  next
    case False
    with r "1.prems"(2) show ?thesis by (simp add: r_def)
  qed
  show ?case
  proof (cases c1)
    case False
    with r t res p1 show ?thesis by simp
  next
    case True
    with r t res obtain st2 where s2: "apply_symtabs syms st1 = Inr st2"
      by (cases "apply_symtabs syms st1") auto
    from apply_symtabs_preserves [of P, OF sym p1 s2] have p2: "P st2" .
    from True r t res s2 obtain st3 where s3: "traverse_exprs K (sub_exprs s) st2 = Inr st3"
      by (cases "traverse_exprs K (sub_exprs s) st2") auto
    from traverse_expr_preserves(2) [of Q P, OF expr "1.prems"(1) p2 s3] have p3: "P st3" .
    from True r t res s2 s3 obtain st4 where
      s4: "traverse_sents K ((a, get_nodetype cl) # ps) body st3 = Inr st4"
      by (cases "traverse_sents K ((a, get_nodetype cl) # ps) body st3") auto
    have r': "(if for_sent st then apply_sent ps (Sent a cl syms es body) st else Inr (True, st))
                = Inr (c1, st1)"
      using r unfolding r_def s_def .
    have s3': "traverse_exprs K (sub_exprs (Sent a cl syms es body)) st2 = Inr st3"
      using s3 by (simp add: s_def)
    from True have nn: "\<not> \<not> c1" by simp
    from "1.IH" [of "(c1, st1)" c1 st1 st2 st3 st4, OF r' _ nn s2 s3' "1.prems"(1) p3 s4]
    have p4: "P st4" by simp
    show ?thesis
    proof (cases "for_sent st4 \<and> separate_post_apply st4")
      case False
      with True r t res s2 s3 s4 p4 show ?thesis by auto
    next
      case post_on: True
      with True r t res s2 s3 s4 have "apply2 s st4 = Inr (c, st')" by simp
      from post [OF p4 this] show ?thesis .
    qed
  qed
next
  case (2 K ps st)
  then show ?case by simp
next
  case (3 K ps s ss st)
  from "3.prems"(3) obtain c1 st1 where a: "traverse_sent K ps s st = Inr (c1, st1)"
    by (cases "traverse_sent K ps s st") auto
  from "3.IH"(1) [OF "3.prems"(1,2) a] have p1: "P st1" .
  show ?case
  proof (cases c1)
    case False
    with a "3.prems"(3) p1 show ?thesis by simp
  next
    case True
    with a "3.prems"(3) have "traverse_sents K ps ss st1 = Inr st'" by simp
    from "3.IH"(2) [of "(c1, st1)" c1 st1 st', OF a _ True "3.prems"(1) p1 this]
    show ?thesis by simp
  qed
qed


lemma reports_of_write_path:
  "k \<noteq> GM_ERROR_GPS_EDGE_WRITE_CONDITIONAL \<Longrightarrow> reports_of k (write_path a l f cond st) = reports_of k st"
  by (simp add: reports_of_def write_path_def)

lemma apply_sent_reports:
  assumes "apply_sent ps s st = Inr (c, st')" and "k \<noteq> GM_ERROR_GPS_EDGE_WRITE_CONDITIONAL"
  shows "reports_of k st' = reports_of k st"
  using apply_sent_result [OF assms(1)] assms(2)
  by (auto simp add: reports_of_write_path) (simp_all add: reports_of_def)

lemma apply_symtab_reports:
  assumes "apply_symtab e st = Inr (c, st')"
  shows "reports_of k st' = reports_of k st"
  using apply_symtab_result [OF assms] by (auto simp add: reports_of_def)

lemma apply2_reports:
  assumes "apply2 s st = Inr (c, st')"
  shows "reports_of k st' = reports_of k st"
  using apply2_result [OF assms] by (auto simp add: reports_of_def)

lemma traverse_both_preserves:
  assumes sym: "\<And>e st c st'. P st \<Longrightarrow> apply_symtab e st = Inr (c, st') \<Longrightarrow> P st'"
    and sent: "\<And>ps s st c st'. P st \<Longrightarrow> apply_sent ps s st = Inr (c, st') \<Longrightarrow> P st'"
    and expr: "\<And>K e st c st'. Q K \<Longrightarrow> P st \<Longrightarrow> apply_expr K e st = Inr (c, st') \<Longrightarrow> P st'"
    and post: "\<And>s st c st'. P st \<Longrightarrow> apply2 s st = Inr (c, st') \<Longrightarrow> P st'"
    and "Q K" and "P st" and "traverse_both K proc st = Inr st'"
  shows "P st'"
proof -
  from assms(7) obtain st1 where s1: "apply_symtabs (proc_symtab proc) st = Inr st1"
    by (cases "apply_symtabs (proc_symtab proc) st") (auto simp add: traverse_both_def)
  from apply_symtabs_preserves [of P, OF sym assms(6) s1] have p1: "P st1" .
  from assms(7) s1 obtain c where
    "traverse_sent K [(proc_addr proc, AST_PROCDEF)] (proc_body proc) st1 = Inr (c, st')"
    by (cases "traverse_sent K [(proc_addr proc, AST_PROCDEF)] (proc_body proc) st1")
       (auto simp add: traverse_both_def)
  from traverse_sent_preserves(1) [of P Q, OF sym sent expr post assms(5) p1 this]
  show ?thesis .
qed

lemma flag_agrees_symtab:
  "flag_agrees st \<Longrightarrow> apply_symtab e st = Inr (c, st') \<Longrightarrow> flag_agrees st'"
  by (auto simp add: flag_agrees_def dest!: apply_symtab_result)

lemma flag_agrees_apply2:
  "flag_agrees st \<Longrightarrow> apply2 s st = Inr (c, st') \<Longrightarrow> flag_agrees st'"
  by (auto simp add: flag_agrees_def dest!: apply2_result)

lemma flag_agrees_sent:
  "flag_agrees st \<Longrightarrow> apply_sent ps s st = Inr (c, st') \<Longrightarrow> flag_agrees st'"
  by (auto simp add: flag_agrees_def write_path_def split: if_splits dest!: apply_sent_result)

lemma flag_agrees_expr:
  "flag_agrees st \<Longrightarrow> apply_expr K e st = Inr (c, st') \<Longrightarrow> flag_agrees st'"
  by (auto simp add: flag_agrees_def check_rhs_scope_frame split: if_splits dest!: apply_expr_result)

lemma flag_agrees_new: "flag_agrees (new_gps_check_edge_value_t is_inner)"
  by (simp add: flag_agrees_def new_gps_check_edge_value_t_def)

lemma process_flag_agrees:
  assumes "process K is_inner proc = Inr (ok, st)"
  shows "ok \<longleftrightarrow> backend_errors st = []"
proof -
  from assms have t: "traverse_both K proc (new_gps_check_edge_value_t is_inner) = Inr st"
    and ok: "ok = (\<not> is_error st)"
    by (auto simp add: process_def split: sum.splits)
  have "flag_agrees st"
    by (rule traverse_both_preserves [of flag_agrees "\<lambda>K. True", OF _ _ _ _ _ flag_agrees_new t])
       (auto intro: flag_agrees_symtab flag_agrees_sent flag_agrees_expr flag_agrees_apply2)
  with ok show ?thesis by (simp add: flag_agrees_def is_error_def)
qed

lemma callbacks_continue_and_extend:
  "apply_sent ps s st = Inr (c, st') \<Longrightarrow> c \<and> prefix (backend_errors st) (backend_errors st')"
  "apply_expr K e st = Inr (c, st') \<Longrightarrow> c \<and> prefix (backend_errors st) (backend_errors st')"
  "apply_symtab y st = Inr (c, st') \<Longrightarrow> c \<and> prefix (backend_errors st) (backend_errors st')"
  "apply2 s st = Inr (c, st') \<Longrightarrow> c \<and> prefix (backend_errors st) (backend_errors st')"
proof -
  show "apply_sent ps s st = Inr (c, st') \<Longrightarrow> c \<and> prefix (backend_errors st) (backend_errors st')"
    by (auto simp add: write_path_def dest!: apply_sent_result)
  show "apply_expr K e st = Inr (c, st') \<Longrightarrow> c \<and> prefix (backend_errors st) (backend_errors st')"
    by (auto simp add: check_rhs_scope_frame dest!: apply_expr_result)
  show "apply_symtab y st = Inr (c, st') \<Longrightarrow> c \<and> prefix (backend_errors st) (backend_errors st')"
    by (auto dest!: apply_symtab_result)
  show "apply2 s st = Inr (c, st') \<Longrightarrow> c \<and> prefix (backend_errors st) (backend_errors st')"
    by (auto dest!: apply2_result)
qed

text \<open>The pass evaluated on two of the scenarios.\<close>

lemma scenario_A_run:
  "(case process header_34 inner_loops scenario_A of
      Inl x \<Rightarrow> None | Inr (ok, st) \<Rightarrow> Some (ok, backend_errors st)) = Some (True, [])"
  by code_simp

lemma scenario_many_run:
  "(case process header_34 inner_loops scenario_many of
      Inl x \<Rightarrow> None | Inr (ok, st) \<Rightarrow> Some (backend_errors st))
     = Some [Diag GM_ERROR_GPS_EDGE_SEND_VERSIONS 7 12 (Some ''e''),
             Diag GM_ERROR_GPS_EDGE_WRITE_CONDITIONAL 8 18 None,
             Diag GM_ERROR_GPS_EDGE_READ_RANDOM 9 13 None]"
  by code_simp

lemma rhs_report_off:
  assumes "GPS_NEW_SCOPE_IN K \<noteq> 0" "GPS_NEW_SCOPE_IN K \<noteq> 1"
    "GPS_NEW_SCOPE_RANDOM K \<noteq> 0" "GPS_NEW_SCOPE_RANDOM K \<noteq> 1"
  shows "rhs_report K e st = []"
  using assms by (cases "info_bool_EXPR_SCOPE e") (simp_all add: rhs_report_def)

lemma no_rhs_report_expr:
  assumes "scope_constants_not_bool K" and "reports_of GM_ERROR_GPS_EDGE_WRITE_RHS st = []"
    and "apply_expr K e st = Inr (c, st')"
  shows "reports_of GM_ERROR_GPS_EDGE_WRITE_RHS st' = []"
proof -
  from assms(1) have "rhs_report K e st = []"
    by (simp add: scope_constants_not_bool_def rhs_report_off)
  with apply_expr_result [OF assms(3)] assms(2) show ?thesis
    by (auto simp add: reports_of_def check_rhs_scope_frame)
qed

lemma scenario_D_run:
  "(case process header_34 inner_loops (scenario_D True) of
      Inl x \<Rightarrow> None | Inr (ok, st) \<Rightarrow> Some (ok, backend_errors st)) = Some (True, [])"
  "(case process header_34 inner_loops (scenario_D False) of
      Inl x \<Rightarrow> None | Inr (ok, st) \<Rightarrow> Some (ok, backend_errors st)) = Some (True, [])"
  by code_simp+

subsection \<open>The walk invokes every callback, in order\<close>

lemma callback_continues:
  assumes "callback K v st = Inr (c, st')"
  shows "c \<and> all_on st' = all_on st"
proof (cases v)
  case (VISIT_SYMTAB e)
  with assms have "apply_symtab e st = Inr (c, st')" by simp
  from apply_symtab_result [OF this] show ?thesis by (auto simp add: all_on_def)
next
  case (VISIT_SENT ps s)
  with assms have "apply_sent ps s st = Inr (c, st')" by simp
  from apply_sent_result [OF this] show ?thesis by (auto simp add: all_on_def write_path_def)
next
  case (VISIT_EXPR e)
  with assms have "apply_expr K e st = Inr (c, st')" by simp
  from apply_expr_result [OF this] show ?thesis by (auto simp add: all_on_def check_rhs_scope_frame)
next
  case (VISIT_POST s)
  with assms have "apply2 s st = Inr (c, st')" by simp
  from apply2_result [OF this] show ?thesis by (auto simp add: all_on_def)
qed

lemma run_visits_append:
  "run_visits K (xs @ ys) st =
     (case run_visits K xs st of Inl x \<Rightarrow> Inl x | Inr st1 \<Rightarrow> run_visits K ys st1)"
  by (induction xs arbitrary: st) (auto split: sum.splits)

lemma run_visits_all_on:
  "run_visits K vs st = Inr st' \<Longrightarrow> all_on st' = all_on st"
proof (induction vs arbitrary: st)
  case Nil
  then show ?case by simp
next
  case (Cons v vs)
  from Cons.prems obtain c st1 where c: "callback K v st = Inr (c, st1)"
    and r: "run_visits K vs st1 = Inr st'"
    by (auto split: sum.splits)
  from callback_continues [OF c] Cons.IH [OF r] show ?case by simp
qed

lemma apply_symtabs_visits:
  "all_on st \<Longrightarrow> apply_symtabs es st = run_visits K (map VISIT_SYMTAB es) st"
proof (induction es arbitrary: st)
  case Nil
  then show ?case by simp
next
  case (Cons e es)
  then have on: "for_symtab st" by (simp add: all_on_def)
  show ?case
  proof (cases "apply_symtab e st")
    case (Inl x)
    with on show ?thesis by simp
  next
    case (Inr r)
    obtain c st1 where r: "r = (c, st1)" by (cases r)
    with Inr have a: "callback K (VISIT_SYMTAB e) st = Inr (c, st1)" by simp
    from callback_continues [OF a] Cons.prems have "c" "all_on st1" by simp_all
    with Cons.IH [of st1] Inr r on show ?thesis by simp
  qed
qed


lemma traverse_expr_visits:
  "all_on st \<Longrightarrow> traverse_expr K e st = continue_with (run_visits K (visits_expr e) st)"
  "all_on st \<Longrightarrow> traverse_exprs K es st = run_visits K (visits_exprs es) st"
proof (induction K e st and K es st rule: traverse_expr_traverse_exprs.induct)
  case (1 K n es st)
  then have on: "for_expr st" by (simp add: all_on_def)
  show ?case
  proof (cases "apply_expr K n st")
    case (Inl x)
    with on show ?thesis by (simp add: continue_with_def)
  next
    case (Inr r)
    obtain c st1 where r: "r = (c, st1)" by (cases r)
    with Inr have a: "callback K (VISIT_EXPR n) st = Inr (c, st1)" by simp
    from callback_continues [OF a] "1.prems" have c: "c" and on1: "all_on st1" by simp_all
    have r': "(if for_expr st then apply_expr K n st else Inr (True, st)) = Inr (c, st1)"
      using on Inr r by simp
    from "1.IH" [of "(c, st1)" c st1, OF r' _ c on1]
    have "traverse_exprs K es st1 = run_visits K (visits_exprs es) st1" by simp
    with Inr r on c show ?thesis by (simp add: continue_with_def)
  qed
next
  case (2 K st)
  then show ?case by simp
next
  case (3 K e es st)
  from "3.IH"(1) [OF "3.prems"]
  have h: "traverse_expr K e st = continue_with (run_visits K (visits_expr e) st)" .
  show ?case
  proof (cases "run_visits K (visits_expr e) st")
    case (Inl x)
    with h show ?thesis by (simp add: continue_with_def run_visits_append)
  next
    case (Inr st1)
    with h have t: "traverse_expr K e st = Inr (True, st1)" by (simp add: continue_with_def)
    from run_visits_all_on [OF Inr] "3.prems" have on1: "all_on st1" by simp
    from "3.IH"(2) [of "(True, st1)" True st1, OF t _ _ on1]
    have "traverse_exprs K es st1 = run_visits K (visits_exprs es) st1" by simp
    with t Inr show ?thesis by (simp add: run_visits_append)
  qed
qed

lemma traverse_sent_visits:
  "all_on st \<Longrightarrow> traverse_sent K ps s st = continue_with (run_visits K (visits_sent ps s) st)"
  "all_on st \<Longrightarrow> traverse_sents K ps ss st = run_visits K (visits_sents ps ss) st"
proof (induction K ps s st and K ps ss st rule: traverse_sent_traverse_sents.induct)
  case (1 K ps a cl syms es body st)
  define s where "s = Sent a cl syms es body"
  from "1.prems" have on: "for_sent st" by (simp add: all_on_def)
  have v: "visits_sent ps s =
     VISIT_SENT ps s # (map VISIT_SYMTAB syms
     @ (visits_exprs (sub_exprs s)
     @ (visits_sents ((a, get_nodetype cl) # ps) body
     @ [VISIT_POST s])))"
    by (simp add: s_def)
  have t: "traverse_sent K ps s st =
     (case (if for_sent st then apply_sent ps s st else Inr (True, st)) of
        Inl x \<Rightarrow> Inl x
      | Inr (c, st1) \<Rightarrow>
          if \<not> c then Inr (False, st1)
          else
            (case apply_symtabs syms st1 of
               Inl x \<Rightarrow> Inl x
             | Inr st2 \<Rightarrow>
                 (case traverse_exprs K (sub_exprs s) st2 of
                    Inl x \<Rightarrow> Inl x
                  | Inr st3 \<Rightarrow>
                      (case traverse_sents K ((a, get_nodetype cl) # ps) body st3 of
                         Inl x \<Rightarrow> Inl x
                       | Inr st4 \<Rightarrow>
                           if for_sent st4 \<and> separate_post_apply st4
                           then apply2 s st4
                           else Inr (True, st4)))))"
    unfolding s_def by (rule traverse_sent.simps(1))
  have goal: "traverse_sent K ps s st = continue_with (run_visits K (visits_sent ps s) st)"
  proof (cases "apply_sent ps s st")
    case (Inl x)
    with on show ?thesis by (simp add: t v continue_with_def)
  next
    case (Inr r)
    obtain c st1 where r: "r = (c, st1)" by (cases r)
    with Inr have a1: "callback K (VISIT_SENT ps s) st = Inr (c, st1)" by simp
    from callback_continues [OF a1] "1.prems" have c: "c" and on1: "all_on st1" by simp_all
    have s1: "apply_symtabs syms st1 = run_visits K (map VISIT_SYMTAB syms) st1"
      using on1 by (rule apply_symtabs_visits)
    show ?thesis
    proof (cases "run_visits K (map VISIT_SYMTAB syms) st1")
      case (Inl x)
      with Inr r on c s1 show ?thesis
        by (simp add: t v continue_with_def run_visits_append)
    next
      case st2: (Inr st2)
      from run_visits_all_on [OF st2] on1 have on2: "all_on st2" by simp
      have s2: "traverse_exprs K (sub_exprs s) st2 = run_visits K (visits_exprs (sub_exprs s)) st2"
        using on2 by (rule traverse_expr_visits(2))
      show ?thesis
      proof (cases "run_visits K (visits_exprs (sub_exprs s)) st2")
        case (Inl x)
        with Inr r on c s1 st2 s2 show ?thesis
          by (simp add: t v continue_with_def run_visits_append)
      next
        case st3: (Inr st3)
        from run_visits_all_on [OF st3] on2 have on3: "all_on st3" by simp
        have r': "(if for_sent st then apply_sent ps (Sent a cl syms es body) st
                   else Inr (True, st)) = Inr (c, st1)"
          using on Inr r by (simp add: s_def)
        from c have nn: "\<not> \<not> c" by simp
        have s1': "apply_symtabs syms st1 = Inr st2" using s1 st2 by simp
        have s2': "traverse_exprs K (sub_exprs (Sent a cl syms es body)) st2 = Inr st3"
          using s2 st3 by (simp add: s_def)
        from "1.IH" [of "(c, st1)" c st1 st2 st3, OF r' _ nn s1' s2' on3]
        have s3: "traverse_sents K ((a, get_nodetype cl) # ps) body st3
                  = run_visits K (visits_sents ((a, get_nodetype cl) # ps) body) st3"
          by simp
        show ?thesis
        proof (cases "run_visits K (visits_sents ((a, get_nodetype cl) # ps) body) st3")
          case (Inl x)
          with Inr r on c s1 st2 s2 st3 s3 show ?thesis
            by (simp add: t v continue_with_def run_visits_append)
        next
          case st4: (Inr st4)
          from run_visits_all_on [OF st4] on3 have on4: "all_on st4" by simp
          then have p: "for_sent st4 \<and> separate_post_apply st4" by (simp add: all_on_def)
          show ?thesis
          proof (cases "apply2 s st4")
            case (Inl x)
            with Inr r on c s1 st2 s2 st3 s3 st4 p show ?thesis
              by (simp add: t v continue_with_def run_visits_append)
          next
            case post: (Inr q)
            obtain c5 st5 where q: "q = (c5, st5)" by (cases q)
            with post have "callback K (VISIT_POST s) st4 = Inr (c5, st5)" by simp
            from callback_continues [OF this] have "c5" by simp
            with post q Inr r on c s1 st2 s2 st3 s3 st4 p show ?thesis
              by (simp add: t v continue_with_def run_visits_append)
          qed
        qed
      qed
    qed
  qed
  then show ?case by (simp only: s_def)
next
  case (2 K ps st)
  then show ?case by simp
next
  case (3 K ps s ss st)
  from "3.IH"(1) [OF "3.prems"]
  have h: "traverse_sent K ps s st = continue_with (run_visits K (visits_sent ps s) st)" .
  show ?case
  proof (cases "run_visits K (visits_sent ps s) st")
    case (Inl x)
    with h show ?thesis by (simp add: continue_with_def run_visits_append)
  next
    case (Inr st1)
    with h have t: "traverse_sent K ps s st = Inr (True, st1)" by (simp add: continue_with_def)
    from run_visits_all_on [OF Inr] "3.prems" have on1: "all_on st1" by simp
    from "3.IH"(2) [of "(True, st1)" True st1, OF t _ _ on1]
    have "traverse_sents K ps ss st1 = run_visits K (visits_sents ps ss) st1" by simp
    with t Inr show ?thesis by (simp add: run_visits_append)
  qed
qed

lemma traverse_both_visits:
  assumes "all_on st"
  shows "traverse_both K proc st = run_visits K (visits_proc proc) st"
proof (cases "run_visits K (map VISIT_SYMTAB (proc_symtab proc)) st")
  case (Inl x)
  with apply_symtabs_visits [OF assms, of "proc_symtab proc" K] show ?thesis
    by (simp add: traverse_both_def visits_proc_def run_visits_append)
next
  case (Inr st1)
  from run_visits_all_on [OF Inr] assms have on1: "all_on st1" by simp
  from traverse_sent_visits(1) [OF on1, of K "[(proc_addr proc, AST_PROCDEF)]" "proc_body proc"]
    apply_symtabs_visits [OF assms, of "proc_symtab proc" K] Inr
  show ?thesis
    by (auto simp add: traverse_both_def visits_proc_def run_visits_append continue_with_def
          split: sum.splits)
qed


lemma callback_grows:
  assumes "callback K v st = Inr (c, st')"
  shows "(GPS_FLAG_EDGE_DEFINED_INNER st a \<longrightarrow> GPS_FLAG_EDGE_DEFINED_INNER st' a)
         \<and> set (backend_errors st) \<subseteq> set (backend_errors st')"
proof (cases v)
  case (VISIT_SYMTAB e)
  with assms have "apply_symtab e st = Inr (c, st')" by simp
  from apply_symtab_result [OF this] show ?thesis by auto
next
  case (VISIT_SENT ps s)
  with assms have "apply_sent ps s st = Inr (c, st')" by simp
  from apply_sent_result [OF this] show ?thesis by (auto simp add: write_path_def)
next
  case (VISIT_EXPR e)
  with assms have "apply_expr K e st = Inr (c, st')" by simp
  from apply_expr_result [OF this] show ?thesis by (auto simp add: check_rhs_scope_frame)
next
  case (VISIT_POST s)
  with assms have "apply2 s st = Inr (c, st')" by simp
  from apply2_result [OF this] show ?thesis by auto
qed

lemma run_visits_grows:
  "run_visits K vs st = Inr st' \<Longrightarrow>
   (GPS_FLAG_EDGE_DEFINED_INNER st a \<longrightarrow> GPS_FLAG_EDGE_DEFINED_INNER st' a)
   \<and> set (backend_errors st) \<subseteq> set (backend_errors st')"
proof (induction vs arbitrary: st)
  case Nil
  then show ?case by simp
next
  case (Cons v vs)
  from Cons.prems obtain c st1 where c: "callback K v st = Inr (c, st1)"
    and r: "run_visits K vs st1 = Inr st'"
    by (auto split: sum.splits)
  from callback_grows [OF c, of a] Cons.IH [OF r] show ?case by blast
qed

lemma run_visits_random_read:
  assumes "run_visits K vs st = Inr st'" and "VISIT_EXPR n \<in> set vs"
    and "expr_class n = EXPR_FIELD f" and "source_type_is_edge_compatible f"
    and "\<not> GPS_FLAG_EDGE_DEFINED_INNER st' (sym_addr (getSymInfo (get_first f)))"
  shows "Diag GM_ERROR_GPS_EDGE_READ_RANDOM (field_line f) (field_col f) None
           \<in> set (backend_errors st')"
  using assms(1,2,5)
proof (induction vs arbitrary: st)
  case Nil
  then show ?case by simp
next
  case (Cons v vs)
  from Cons.prems(1) obtain c st1 where c: "callback K v st = Inr (c, st1)"
    and r: "run_visits K vs st1 = Inr st'"
    by (auto split: sum.splits)
  show ?case
  proof (cases "VISIT_EXPR n \<in> set vs")
    case True
    from Cons.IH [OF r True Cons.prems(3)] show ?thesis .
  next
    case False
    with Cons.prems(2) have v: "v = VISIT_EXPR n" by simp
    from run_visits_grows [OF r, of "sym_addr (getSymInfo (get_first f))"]
      callback_grows [OF c, of "sym_addr (getSymInfo (get_first f))"] Cons.prems(3)
    have un: "\<not> GPS_FLAG_EDGE_DEFINED_INNER st (sym_addr (getSymInfo (get_first f)))"
      and sub: "set (backend_errors st1) \<subseteq> set (backend_errors st')"
      by blast+
    from un have "\<not> GPS_FLAG_EDGE_DEFINED_INNER (check_rhs_scope K n st)
                     (sym_addr (getSymInfo (get_first f)))"
      by (simp add: check_rhs_scope_frame)
    from check_edge_read_random [OF assms(3,4) this] c v
    have "Diag GM_ERROR_GPS_EDGE_READ_RANDOM (field_line f) (field_col f) None
            \<in> set (backend_errors st1)"
      by (auto simp add: apply_expr_def)
    with sub show ?thesis by blast
  qed
qed

lemma all_on_new: "all_on (new_gps_check_edge_value_t is_inner)"
  by (simp add: all_on_def new_gps_check_edge_value_t_def)

lemma process_visits:
  "process K is_inner proc =
     (case run_visits K (visits_proc proc) (new_gps_check_edge_value_t is_inner) of
        Inl x \<Rightarrow> Inl x
      | Inr T2 \<Rightarrow> Inr (\<not> is_error T2, T2))"
  by (simp add: process_def traverse_both_visits [OF all_on_new])

lemma scenario_E_run:
  "(case process header_34 inner_loops scenario_E of
      Inl x \<Rightarrow> None
    | Inr (ok, st) \<Rightarrow> Some (ok, backend_errors st, GPS_FLAG_EDGE_DEFINED_INNER st 14))
     = Some (False, [Diag GM_ERROR_GPS_EDGE_READ_RANDOM 4 13 None], False)"
  by code_simp

lemma scenario_E_visit: "VISIT_EXPR (expr_node read_f_A) \<in> set (visits_proc scenario_E)"
  by code_simp

subsection \<open>The claims\<close>

text \<open>
  C1. Whatever events are observed, in whatever interleaving with the events of other
  pairs, the state that the map \<open>GPS_MAP_EDGE_PROP_ACCESS\<close> holds for a pair (inner
  loop, symbol) that had no state before is the left fold of the transition table of
  rule 6 over the events of that pair, starting from "no prior state"; and the code
  returns on every such sequence.
\<close>

theorem C1_final_state_is_fold_of_transition_table:
  assumes "GPS_MAP_EDGE_PROP_ACCESS st (fe, e) = None"
  shows "\<exists>st'. observe_events evs st = Inr st'
      \<and> GPS_MAP_EDGE_PROP_ACCESS st' (fe, e) = foldl spec_transition None (events_of fe e evs)"
  using observe_events_fold [of evs st fe e] assms by simp

theorem C1_witness:
  "GPS_MAP_EDGE_PROP_ACCESS (new_gps_check_edge_value_t (\<lambda>a. False)) (1, 7) = None
   \<and> (\<exists>st'. observe_events [(1, 7, Send), (1, 8, Write), (1, 7, Write), (2, 7, Write), (1, 7, Send)]
             (new_gps_check_edge_value_t (\<lambda>a. False)) = Inr st'
        \<and> GPS_MAP_EDGE_PROP_ACCESS st' (1, 7) = Some GPS_ENUM_EDGE_VALUE_ERROR)"
proof -
  have h: "GPS_MAP_EDGE_PROP_ACCESS (new_gps_check_edge_value_t (\<lambda>a. False)) (1, 7) = None"
    by (simp add: new_gps_check_edge_value_t_def)
  show ?thesis
    using h C1_final_state_is_fold_of_transition_table [OF h,
        of "[(1, 7, Send), (1, 8, Write), (1, 7, Write), (2, 7, Write), (1, 7, Send)]"]
    by auto
qed

text \<open>
  C9. A write is never the event that raises the error: on every state of a pair,
  also with no state yet, \<^verbatim>\<open>manage_edge_prop_access_state\<close> called with
  \<open>WRITING\<close> returns \<open>False\<close>, and whenever it returns at all its result is
  \<open>False\<close>; so the assertion \<^verbatim>\<open>assert(b == false)\<close> of the assignment handler
  never fails, whatever statement the handler is given.
\<close>

theorem C9_write_is_never_the_error_event:
  "(\<exists>st'. manage_edge_prop_access_state (Some fe) e WRITING st = Inr (False, st'))
   \<and> (\<forall>b st'. manage_edge_prop_access_state il e WRITING st = Inr (b, st') \<longrightarrow> b = False)
   \<and> apply_sent ps s st \<noteq> Inl ASSERT_B_FALSE"
proof -
  have 1: "\<exists>st'. manage_edge_prop_access_state (Some fe) e WRITING st = Inr (False, st')"
    by (simp add: manage_WRITING)
  have 2: "\<forall>b st'. manage_edge_prop_access_state il e WRITING st = Inr (b, st') \<longrightarrow> b = False"
  proof (cases il)
    case None
    with manage_null [of e WRITING st] show ?thesis by auto
  next
    case (Some l)
    then show ?thesis by (simp add: manage_WRITING)
  qed
  have 3: "apply_sent ps s st \<noteq> Inl ASSERT_B_FALSE"
    using apply_assign_field_not_assert_b apply_assign_scala_not_assert_b
    by (auto simp add: apply_sent_def split: sent_class_t.splits assign_lhs.splits)
  from 1 2 3 show ?thesis by blast
qed




theorem C9_witness:
  "(\<exists>st'. manage_edge_prop_access_state (Some 2) 22 WRITING
            (inside_inner_loop\<lparr>GPS_MAP_EDGE_PROP_ACCESS := [(2, 22) \<mapsto> GPS_ENUM_EDGE_VALUE_SENT_WRITE]\<rparr>)
          = Inr (False, st'))
   \<and> apply_sent body_parents (write_e_B 7 6)
        (inside_inner_loop\<lparr>GPS_MAP_EDGE_PROP_ACCESS := [(2, 22) \<mapsto> GPS_ENUM_EDGE_VALUE_SENT_WRITE]\<rparr>)
       \<noteq> Inl ASSERT_B_FALSE"
  using C9_write_is_never_the_error_event
    [of 2 22 "inside_inner_loop\<lparr>GPS_MAP_EDGE_PROP_ACCESS := [(2, 22) \<mapsto> GPS_ENUM_EDGE_VALUE_SENT_WRITE]\<rparr>"
        "Some 2" body_parents "write_e_B 7 6"]
  by blast

text \<open>
  C10. An assignment to a field whose base symbol does not carry
  \<open>GPS_FLAG_EDGE_DEFINED_INNER\<close> leaves the whole state as it was and returns the
  continue signal: no report, no entry in the map of access states, no element in the
  list of edge-property writes, and \<open>target_is_edge_prop\<close> keeps its value. While
  that flag is false, the test of the right-hand side does nothing, for any expression.
\<close>

theorem C10_write_through_unmarked_edge_is_skipped:
  assumes "sent_class s = SENT_ASSIGN (LHS_FIELD f) rhs"
    and "\<not> GPS_FLAG_EDGE_DEFINED_INNER st (sym_addr (getSymInfo (get_first f)))"
  shows "apply_sent ps s st = Inr (True, st)
       \<and> (\<not> target_is_edge_prop st \<longrightarrow> check_rhs_scope K e st = st)"
  using assms by (simp add: apply_sent_def apply_assign_field_def Let_def check_rhs_scope_def)

theorem C10_witness:
  "sent_class (write_f_A 5 4)
     = SENT_ASSIGN (LHS_FIELD (edge_prop sym_f ''f'' sym_A ''A'' 4 5))
         (mk_expr (EXPR_FIELD (node_prop sym_n ''n'' sym_Y ''Y'' 4 11)) False [])
   \<and> \<not> GPS_FLAG_EDGE_DEFINED_INNER inside_inner_loop
         (sym_addr (getSymInfo (get_first (edge_prop sym_f ''f'' sym_A ''A'' 4 5))))
   \<and> apply_sent body_parents (write_f_A 5 4) inside_inner_loop = Inr (True, inside_inner_loop)
   \<and> \<not> target_is_edge_prop inside_inner_loop
   \<and> check_rhs_scope \<lparr>GPS_NEW_SCOPE_IN = 1, GPS_NEW_SCOPE_RANDOM = 0\<rparr>
        (expr_node (mk_expr (EXPR_FIELD (node_prop sym_n ''n'' sym_Y ''Y'' 4 11)) False []))
        inside_inner_loop = inside_inner_loop"
proof -
  have h1: "sent_class (write_f_A 5 4)
     = SENT_ASSIGN (LHS_FIELD (edge_prop sym_f ''f'' sym_A ''A'' 4 5))
         (mk_expr (EXPR_FIELD (node_prop sym_n ''n'' sym_Y ''Y'' 4 11)) False [])"
    by (simp add: write_f_A_def)
  have h2: "\<not> GPS_FLAG_EDGE_DEFINED_INNER inside_inner_loop
         (sym_addr (getSymInfo (get_first (edge_prop sym_f ''f'' sym_A ''A'' 4 5))))"
    by (simp add: inside_inner_loop_def edge_prop_def mk_field_def mk_id_def sym_f_def mk_sym_def)
  have h3: "\<not> target_is_edge_prop inside_inner_loop"
    by (simp add: inside_inner_loop_def new_gps_check_edge_value_t_def)
  from C10_write_through_unmarked_edge_is_skipped
         [OF h1 h2, of body_parents "\<lparr>GPS_NEW_SCOPE_IN = 1, GPS_NEW_SCOPE_RANDOM = 0\<rparr>"
            "expr_node (mk_expr (EXPR_FIELD (node_prop sym_n ''n'' sym_Y ''Y'' 4 11)) False [])"]
       h1 h2 h3
  show ?thesis by blast
qed

text \<open>
  C4. Whenever the expression callback is given a field access whose source type is
  edge-compatible and whose base symbol does not carry \<open>GPS_FLAG_EDGE_DEFINED_INNER\<close>,
  it returns the continue signal, its last report is \<open>GM_ERROR_GPS_EDGE_READ_RANDOM\<close>
  at the line and column of the field access, exactly one such report is added, the error
  flag is set, and the map of access states is as before. The callback does not look at
  the parents of the expression. For the whole pass: every such field access that occurs
  as an expression anywhere in the procedure, at any depth and under any statement, and
  whose base symbol is unmarked when the pass returns, has its report in the log, and the
  pass result is not ok.
\<close>

theorem C4_random_read_is_reported:
  assumes "expr_class e = EXPR_FIELD f" and "source_type_is_edge_compatible f"
  shows "(\<not> GPS_FLAG_EDGE_DEFINED_INNER st (sym_addr (getSymInfo (get_first f)))
      \<longrightarrow> (\<exists>st'. apply_expr K e st = Inr (True, st')
           \<and> reports_of GM_ERROR_GPS_EDGE_READ_RANDOM st'
               = reports_of GM_ERROR_GPS_EDGE_READ_RANDOM st
                   @ [Diag GM_ERROR_GPS_EDGE_READ_RANDOM (field_line f) (field_col f) None]
           \<and> last (backend_errors st')
               = Diag GM_ERROR_GPS_EDGE_READ_RANDOM (field_line f) (field_col f) None
           \<and> error_flag st'
           \<and> GPS_MAP_EDGE_PROP_ACCESS st' = GPS_MAP_EDGE_PROP_ACCESS st))
    \<and> (VISIT_EXPR e \<in> set (visits_proc proc)
        \<and> process K is_inner proc = Inr (ok, T2)
        \<and> \<not> GPS_FLAG_EDGE_DEFINED_INNER T2 (sym_addr (getSymInfo (get_first f)))
      \<longrightarrow> Diag GM_ERROR_GPS_EDGE_READ_RANDOM (field_line f) (field_col f) None
             \<in> set (backend_errors T2)
          \<and> \<not> ok)"
proof -
  have 1: "\<exists>st'. apply_expr K e st = Inr (True, st')
           \<and> reports_of GM_ERROR_GPS_EDGE_READ_RANDOM st'
               = reports_of GM_ERROR_GPS_EDGE_READ_RANDOM st
                   @ [Diag GM_ERROR_GPS_EDGE_READ_RANDOM (field_line f) (field_col f) None]
           \<and> last (backend_errors st')
               = Diag GM_ERROR_GPS_EDGE_READ_RANDOM (field_line f) (field_col f) None
           \<and> error_flag st'
           \<and> GPS_MAP_EDGE_PROP_ACCESS st' = GPS_MAP_EDGE_PROP_ACCESS st"
    if un: "\<not> GPS_FLAG_EDGE_DEFINED_INNER st (sym_addr (getSymInfo (get_first f)))"
  proof -
    have "\<not> GPS_FLAG_EDGE_DEFINED_INNER (check_rhs_scope K e st) (sym_addr (getSymInfo (get_first f)))"
      using un by (simp add: check_rhs_scope_frame)
    from check_edge_read_random [OF assms(1,2) this]
    show ?thesis
      by (simp add: apply_expr_def reports_of_def check_rhs_scope_frame filter_rhs_report)
  qed
  have 2: "Diag GM_ERROR_GPS_EDGE_READ_RANDOM (field_line f) (field_col f) None
             \<in> set (backend_errors T2) \<and> \<not> ok"
    if v: "VISIT_EXPR e \<in> set (visits_proc proc)"
      and p: "process K is_inner proc = Inr (ok, T2)"
      and un: "\<not> GPS_FLAG_EDGE_DEFINED_INNER T2 (sym_addr (getSymInfo (get_first f)))"
  proof -
    from p have r: "run_visits K (visits_proc proc) (new_gps_check_edge_value_t is_inner) = Inr T2"
      by (auto simp add: process_visits split: sum.splits)
    from run_visits_random_read [OF r v assms un]
    have d: "Diag GM_ERROR_GPS_EDGE_READ_RANDOM (field_line f) (field_col f) None
             \<in> set (backend_errors T2)" .
    with process_flag_agrees [OF p] show ?thesis by auto
  qed
  from 1 2 show ?thesis by blast
qed

theorem C4_witness:
  "expr_class (expr_node read_f_A) = EXPR_FIELD (edge_prop sym_f ''f'' sym_A ''A'' 4 13)
   \<and> source_type_is_edge_compatible (edge_prop sym_f ''f'' sym_A ''A'' 4 13)
   \<and> \<not> GPS_FLAG_EDGE_DEFINED_INNER inside_inner_loop
         (sym_addr (getSymInfo (get_first (edge_prop sym_f ''f'' sym_A ''A'' 4 13))))
   \<and> (\<exists>st'. apply_expr header_34 (expr_node read_f_A) inside_inner_loop = Inr (True, st')
         \<and> reports_of GM_ERROR_GPS_EDGE_READ_RANDOM st'
             = [Diag GM_ERROR_GPS_EDGE_READ_RANDOM 4 13 None]
         \<and> last (backend_errors st') = Diag GM_ERROR_GPS_EDGE_READ_RANDOM 4 13 None
         \<and> error_flag st'
         \<and> GPS_MAP_EDGE_PROP_ACCESS st' = Map.empty)
   \<and> VISIT_EXPR (expr_node read_f_A) \<in> set (visits_proc scenario_E)
   \<and> (\<exists>T2. process header_34 inner_loops scenario_E = Inr (False, T2)
         \<and> Diag GM_ERROR_GPS_EDGE_READ_RANDOM 4 13 None \<in> set (backend_errors T2))"
proof -
  have h1: "expr_class (expr_node read_f_A) = EXPR_FIELD (edge_prop sym_f ''f'' sym_A ''A'' 4 13)"
    by (simp add: read_f_A_def mk_expr_def)
  have h2: "source_type_is_edge_compatible (edge_prop sym_f ''f'' sym_A ''A'' 4 13)"
    by (simp add: edge_prop_def mk_field_def)
  have a: "sym_addr (getSymInfo (get_first (edge_prop sym_f ''f'' sym_A ''A'' 4 13))) = 14"
    by (simp add: edge_prop_def mk_field_def mk_id_def sym_f_def mk_sym_def)
  have h3: "\<not> GPS_FLAG_EDGE_DEFINED_INNER inside_inner_loop
         (sym_addr (getSymInfo (get_first (edge_prop sym_f ''f'' sym_A ''A'' 4 13))))"
    by (simp add: a inside_inner_loop_def)
  have e: "reports_of GM_ERROR_GPS_EDGE_READ_RANDOM inside_inner_loop = []"
    "GPS_MAP_EDGE_PROP_ACCESS inside_inner_loop = Map.empty"
    by (simp_all add: inside_inner_loop_def new_gps_check_edge_value_t_def reports_of_def)
  have l: "field_line (edge_prop sym_f ''f'' sym_A ''A'' 4 13) = 4"
    "field_col (edge_prop sym_f ''f'' sym_A ''A'' 4 13) = 13"
    by (simp_all add: edge_prop_def mk_field_def mk_id_def)
  from scenario_E_run obtain ok T2 where
    p: "process header_34 inner_loops scenario_E = Inr (ok, T2)"
    and un: "\<not> GPS_FLAG_EDGE_DEFINED_INNER T2 14"
    by (auto split: sum.splits)
  have 1: "\<exists>st'. apply_expr header_34 (expr_node read_f_A) inside_inner_loop = Inr (True, st')
         \<and> reports_of GM_ERROR_GPS_EDGE_READ_RANDOM st'
             = [Diag GM_ERROR_GPS_EDGE_READ_RANDOM 4 13 None]
         \<and> last (backend_errors st') = Diag GM_ERROR_GPS_EDGE_READ_RANDOM 4 13 None
         \<and> error_flag st'
         \<and> GPS_MAP_EDGE_PROP_ACCESS st' = Map.empty"
    using C4_random_read_is_reported
        [where st = inside_inner_loop and K = header_34, OF h1 h2, THEN conjunct1] h3
    by (simp add: l e)
  have 2: "\<exists>T2. process header_34 inner_loops scenario_E = Inr (False, T2)
         \<and> Diag GM_ERROR_GPS_EDGE_READ_RANDOM 4 13 None \<in> set (backend_errors T2)"
    using C4_random_read_is_reported
        [where proc = scenario_E and K = header_34 and is_inner = inner_loops and ok = ok
           and ?T2.0 = T2, OF h1 h2, THEN conjunct2]
      scenario_E_visit p un
    by (simp add: l a)
  from h1 h2 h3 1 2 scenario_E_visit show ?thesis by blast
qed

text \<open>
  C3. For an assignment to a field whose base symbol is of an edge-compatible type and
  carries \<open>GPS_FLAG_EDGE_DEFINED_INNER\<close>, visited while the current inner loop is among
  its parents: the handler returns the continue signal, and it reports
  \<open>GM_ERROR_GPS_EDGE_WRITE_CONDITIONAL\<close>, at the line and column of the assigned field,
  if and only if one of the parents before the inner loop on the chain is an
  \<^verbatim>\<open>if\<close>, a \<^verbatim>\<open>while\<close> or a \<^verbatim>\<open>foreach\<close>; nothing else is reported.
\<close>

theorem C3_conditional_write_detection:
  assumes "sent_class s = SENT_ASSIGN (LHS_FIELD f) rhs"
    and "type_is_edge_compatible (getSymInfo (get_first f))"
    and "GPS_FLAG_EDGE_DEFINED_INNER st (sym_addr (getSymInfo (get_first f)))"
    and "inner_loop st = Some l"
    and "l \<in> fst ` set ps"
  shows "\<exists>st'. apply_sent ps s st = Inr (True, st')
      \<and> backend_errors st' = backend_errors st @
          (if \<exists>pk \<in> set (takeWhile (\<lambda>pk. fst pk \<noteq> l) ps).
                snd pk = AST_IF \<or> snd pk = AST_WHILE \<or> snd pk = AST_FOREACH
           then [Diag GM_ERROR_GPS_EDGE_WRITE_CONDITIONAL (field_line f) (field_col f) None]
           else [])
      \<and> (Diag GM_ERROR_GPS_EDGE_WRITE_CONDITIONAL (field_line f) (field_col f) None
            \<in> set (drop (length (backend_errors st)) (backend_errors st'))
          \<longleftrightarrow> (\<exists>pk \<in> set (takeWhile (\<lambda>pk. fst pk \<noteq> l) ps).
                snd pk = AST_IF \<or> snd pk = AST_WHILE \<or> snd pk = AST_FOREACH))"
proof -
  define cond where "cond \<longleftrightarrow> (\<exists>pk \<in> set (takeWhile (\<lambda>pk. fst pk \<noteq> l) ps).
                snd pk = AST_WHILE \<or> snd pk = AST_IF \<or> snd pk = AST_FOREACH)"
  have "check_conditional (Some l) ps = Inr cond"
    using check_conditional_between [OF assms(5)] by (simp add: cond_def)
  from apply_assign_field_write [OF assms(2,3,4) this, of "sent_addr s"] assms(1)
  have "apply_sent ps s st = Inr (True, write_path (sent_addr s) l f cond st)"
    by (simp add: apply_sent_def)
  moreover have "cond \<longleftrightarrow> (\<exists>pk \<in> set (takeWhile (\<lambda>pk. fst pk \<noteq> l) ps).
                snd pk = AST_IF \<or> snd pk = AST_WHILE \<or> snd pk = AST_FOREACH)"
    by (auto simp add: cond_def)
  ultimately show ?thesis by (simp add: write_path_def)
qed



theorem C3_witness:
  "sent_class (write_e_C 6 4)
     = SENT_ASSIGN (LHS_FIELD (edge_prop sym_e ''e'' sym_C ''C'' 4 18)) (mk_expr EXPR_OTHER False [])
   \<and> type_is_edge_compatible (getSymInfo (get_first (edge_prop sym_e ''e'' sym_C ''C'' 4 18)))
   \<and> GPS_FLAG_EDGE_DEFINED_INNER inside_inner_loop
        (sym_addr (getSymInfo (get_first (edge_prop sym_e ''e'' sym_C ''C'' 4 18))))
   \<and> inner_loop inside_inner_loop = Some 2
   \<and> 2 \<in> fst ` set ((5, AST_IF) # body_parents)
   \<and> 2 \<in> fst ` set body_parents
   \<and> (\<exists>st'. apply_sent ((5, AST_IF) # body_parents) (write_e_C 6 4) inside_inner_loop = Inr (True, st')
         \<and> backend_errors st' = [Diag GM_ERROR_GPS_EDGE_WRITE_CONDITIONAL 4 18 None])
   \<and> (\<exists>st'. apply_sent body_parents (write_e_C 6 4) inside_inner_loop = Inr (True, st')
         \<and> backend_errors st' = [])"
proof -
  have h1: "sent_class (write_e_C 6 4)
     = SENT_ASSIGN (LHS_FIELD (edge_prop sym_e ''e'' sym_C ''C'' 4 18)) (mk_expr EXPR_OTHER False [])"
    by (simp add: write_e_C_def)
  have h2: "type_is_edge_compatible (getSymInfo (get_first (edge_prop sym_e ''e'' sym_C ''C'' 4 18)))"
    by (simp add: edge_prop_def mk_field_def mk_id_def sym_e_def mk_sym_def)
  have h3: "GPS_FLAG_EDGE_DEFINED_INNER inside_inner_loop
        (sym_addr (getSymInfo (get_first (edge_prop sym_e ''e'' sym_C ''C'' 4 18))))"
    by (simp add: inside_inner_loop_def edge_prop_def mk_field_def mk_id_def sym_e_def mk_sym_def)
  have h4: "inner_loop inside_inner_loop = Some 2"
    by (simp add: inside_inner_loop_def)
  have h5: "2 \<in> fst ` set ((5, AST_IF) # body_parents)"
    by (simp add: body_parents_def)
  have h6: "2 \<in> fst ` set body_parents"
    by (simp add: body_parents_def)
  have e: "backend_errors inside_inner_loop = []"
    by (simp add: inside_inner_loop_def new_gps_check_edge_value_t_def)
  have l: "field_line (edge_prop sym_e ''e'' sym_C ''C'' 4 18) = 4"
    "field_col (edge_prop sym_e ''e'' sym_C ''C'' 4 18) = 18"
    by (simp_all add: edge_prop_def mk_field_def mk_id_def)
  have a: "\<exists>st'. apply_sent ((5, AST_IF) # body_parents) (write_e_C 6 4) inside_inner_loop = Inr (True, st')
         \<and> backend_errors st' = [Diag GM_ERROR_GPS_EDGE_WRITE_CONDITIONAL 4 18 None]"
    using C3_conditional_write_detection [OF h1 h2 h3 h4 h5]
    by (auto simp add: e l body_parents_def)
  have b: "\<exists>st'. apply_sent body_parents (write_e_C 6 4) inside_inner_loop = Inr (True, st')
         \<and> backend_errors st' = []"
    using C3_conditional_write_detection [OF h1 h2 h3 h4 h6]
    by (auto simp add: e l body_parents_def)
  from h1 h2 h3 h4 h5 h6 a b show ?thesis by blast
qed

text \<open>
  C2. A send event is a visit of the expression callback to a field access of
  edge-compatible source type whose base symbol carries \<open>GPS_FLAG_EDGE_DEFINED_INNER\<close>,
  while an inner loop \<open>l\<close> is current; its pair is \<open>l\<close> and the symbol of the accessed
  member. On a send event the callback returns the continue signal, moves the state of the
  pair as the table says, and adds a report \<open>GM_ERROR_GPS_EDGE_SEND_VERSIONS\<close>, at the
  line and column of the field access and with the name of its base, exactly when the
  state of the pair was \<open>SENT_WRITE\<close>. No other visit of the expression callback and no
  visit of the other three callbacks (a write among them) adds such a report. From the
  state \<open>ERROR\<close> the state machine returns no error and leaves the whole state as it
  was, for a send and for a write.
\<close>

theorem C2_send_two_versions_report:
  "(expr_class e = EXPR_FIELD f \<and> source_type_is_edge_compatible f
      \<and> GPS_FLAG_EDGE_DEFINED_INNER st (sym_addr (getSymInfo (get_first f)))
      \<and> inner_loop st = Some l
    \<longrightarrow> (\<exists>st'. apply_expr K e st = Inr (True, st')
          \<and> reports_of GM_ERROR_GPS_EDGE_SEND_VERSIONS st'
              = reports_of GM_ERROR_GPS_EDGE_SEND_VERSIONS st @
                (if GPS_MAP_EDGE_PROP_ACCESS st (l, sym_addr (getSymInfo (get_second f)))
                      = Some GPS_ENUM_EDGE_VALUE_SENT_WRITE
                 then [Diag GM_ERROR_GPS_EDGE_SEND_VERSIONS (field_line f) (field_col f)
                         (Some (get_orgname (get_first f)))]
                 else [])
          \<and> GPS_MAP_EDGE_PROP_ACCESS st' (l, sym_addr (getSymInfo (get_second f)))
              = spec_transition
                  (GPS_MAP_EDGE_PROP_ACCESS st (l, sym_addr (getSymInfo (get_second f)))) Send))
   \<and> (apply_expr K e st = Inr (c1, st1)
      \<and> (\<forall>g. expr_class e = EXPR_FIELD g
             \<longrightarrow> \<not> (source_type_is_edge_compatible g
                    \<and> GPS_FLAG_EDGE_DEFINED_INNER st (sym_addr (getSymInfo (get_first g)))))
    \<longrightarrow> reports_of GM_ERROR_GPS_EDGE_SEND_VERSIONS st1
          = reports_of GM_ERROR_GPS_EDGE_SEND_VERSIONS st)
   \<and> (apply_sent ps s st = Inr (c2, st2)
    \<longrightarrow> reports_of GM_ERROR_GPS_EDGE_SEND_VERSIONS st2
          = reports_of GM_ERROR_GPS_EDGE_SEND_VERSIONS st)
   \<and> (apply_symtab y st = Inr (c3, st3)
    \<longrightarrow> reports_of GM_ERROR_GPS_EDGE_SEND_VERSIONS st3
          = reports_of GM_ERROR_GPS_EDGE_SEND_VERSIONS st)
   \<and> (apply2 s st = Inr (c4, st4)
    \<longrightarrow> reports_of GM_ERROR_GPS_EDGE_SEND_VERSIONS st4
          = reports_of GM_ERROR_GPS_EDGE_SEND_VERSIONS st)
   \<and> (GPS_MAP_EDGE_PROP_ACCESS st (l, q) = Some GPS_ENUM_EDGE_VALUE_ERROR
    \<longrightarrow> manage_edge_prop_access_state (Some l) q (op_of ev) st = Inr (False, st))"
proof -
  have A: "\<exists>st'. apply_expr K e st = Inr (True, st')
          \<and> reports_of GM_ERROR_GPS_EDGE_SEND_VERSIONS st'
              = reports_of GM_ERROR_GPS_EDGE_SEND_VERSIONS st @
                (if GPS_MAP_EDGE_PROP_ACCESS st (l, sym_addr (getSymInfo (get_second f)))
                      = Some GPS_ENUM_EDGE_VALUE_SENT_WRITE
                 then [Diag GM_ERROR_GPS_EDGE_SEND_VERSIONS (field_line f) (field_col f)
                         (Some (get_orgname (get_first f)))]
                 else [])
          \<and> GPS_MAP_EDGE_PROP_ACCESS st' (l, sym_addr (getSymInfo (get_second f)))
              = spec_transition
                  (GPS_MAP_EDGE_PROP_ACCESS st (l, sym_addr (getSymInfo (get_second f)))) Send"
    if h: "expr_class e = EXPR_FIELD f" "source_type_is_edge_compatible f"
      "GPS_FLAG_EDGE_DEFINED_INNER st (sym_addr (getSymInfo (get_first f)))"
      "inner_loop st = Some l"
  proof -
    have fl: "GPS_FLAG_EDGE_DEFINED_INNER (check_rhs_scope K e st) (sym_addr (getSymInfo (get_first f)))"
      using h(3) by (simp add: check_rhs_scope_frame)
    have il: "inner_loop (check_rhs_scope K e st) = Some l"
      using h(4) by (simp add: check_rhs_scope_frame)
    from check_edge_read_send [OF h(1,2) fl il]
    show ?thesis
      by (simp add: apply_expr_def reports_of_def check_rhs_scope_frame filter_rhs_report)
  qed
  have B: "reports_of GM_ERROR_GPS_EDGE_SEND_VERSIONS st1
          = reports_of GM_ERROR_GPS_EDGE_SEND_VERSIONS st"
    if r: "apply_expr K e st = Inr (c1, st1)"
      and n: "\<forall>g. expr_class e = EXPR_FIELD g
             \<longrightarrow> \<not> (source_type_is_edge_compatible g
                    \<and> GPS_FLAG_EDGE_DEFINED_INNER st (sym_addr (getSymInfo (get_first g))))"
    using apply_expr_result [OF r] n
    by (auto simp add: reports_of_def check_rhs_scope_frame filter_rhs_report)
  have C: "reports_of GM_ERROR_GPS_EDGE_SEND_VERSIONS st2
          = reports_of GM_ERROR_GPS_EDGE_SEND_VERSIONS st"
    if "apply_sent ps s st = Inr (c2, st2)"
    using apply_sent_reports [OF that] by simp
  have D: "reports_of GM_ERROR_GPS_EDGE_SEND_VERSIONS st3
          = reports_of GM_ERROR_GPS_EDGE_SEND_VERSIONS st"
    if "apply_symtab y st = Inr (c3, st3)"
    using apply_symtab_reports [OF that] by simp
  have E: "reports_of GM_ERROR_GPS_EDGE_SEND_VERSIONS st4
          = reports_of GM_ERROR_GPS_EDGE_SEND_VERSIONS st"
    if "apply2 s st = Inr (c4, st4)"
    using apply2_reports [OF that] by simp
  have F: "manage_edge_prop_access_state (Some l) q (op_of ev) st = Inr (False, st)"
    if "GPS_MAP_EDGE_PROP_ACCESS st (l, q) = Some GPS_ENUM_EDGE_VALUE_ERROR"
    using that by (simp add: manage_eq fun_upd_idem)
  from A B C D E F show ?thesis by blast
qed


theorem C2_witness:
  "(\<exists>st'. apply_expr header_34
            \<lparr>expr_class = EXPR_FIELD (edge_prop sym_e ''e'' sym_B ''B'' 7 12),
             info_bool_EXPR_SCOPE = False\<rparr>
            (inside_inner_loop\<lparr>GPS_MAP_EDGE_PROP_ACCESS := [(2, 22) \<mapsto> GPS_ENUM_EDGE_VALUE_SENT_WRITE]\<rparr>)
          = Inr (True, st')
        \<and> reports_of GM_ERROR_GPS_EDGE_SEND_VERSIONS st'
            = [Diag GM_ERROR_GPS_EDGE_SEND_VERSIONS 7 12 (Some ''e'')]
        \<and> GPS_MAP_EDGE_PROP_ACCESS st' (2, 22) = Some GPS_ENUM_EDGE_VALUE_ERROR)
   \<and> (\<exists>st'. apply_expr header_34
            \<lparr>expr_class = EXPR_FIELD (edge_prop sym_e ''e'' sym_B ''B'' 9 12),
             info_bool_EXPR_SCOPE = False\<rparr>
            (inside_inner_loop\<lparr>GPS_MAP_EDGE_PROP_ACCESS := [(2, 22) \<mapsto> GPS_ENUM_EDGE_VALUE_ERROR]\<rparr>)
          = Inr (True, st')
        \<and> reports_of GM_ERROR_GPS_EDGE_SEND_VERSIONS st' = []
        \<and> GPS_MAP_EDGE_PROP_ACCESS st' (2, 22) = Some GPS_ENUM_EDGE_VALUE_ERROR)
   \<and> manage_edge_prop_access_state (Some 2) 22 WRITING
        (inside_inner_loop\<lparr>GPS_MAP_EDGE_PROP_ACCESS := [(2, 22) \<mapsto> GPS_ENUM_EDGE_VALUE_ERROR]\<rparr>)
      = Inr (False,
          inside_inner_loop\<lparr>GPS_MAP_EDGE_PROP_ACCESS := [(2, 22) \<mapsto> GPS_ENUM_EDGE_VALUE_ERROR]\<rparr>)"
proof -
  define sw where "sw = inside_inner_loop\<lparr>GPS_MAP_EDGE_PROP_ACCESS := [(2, 22) \<mapsto> GPS_ENUM_EDGE_VALUE_SENT_WRITE]\<rparr>"
  define er where "er = inside_inner_loop\<lparr>GPS_MAP_EDGE_PROP_ACCESS := [(2, 22) \<mapsto> GPS_ENUM_EDGE_VALUE_ERROR]\<rparr>"
  have f: "source_type_is_edge_compatible (edge_prop sym_e ''e'' sym_B ''B'' ln 12)"
    "sym_addr (getSymInfo (get_first (edge_prop sym_e ''e'' sym_B ''B'' ln 12))) = 13"
    "sym_addr (getSymInfo (get_second (edge_prop sym_e ''e'' sym_B ''B'' ln 12))) = 22"
    "field_line (edge_prop sym_e ''e'' sym_B ''B'' ln 12) = ln"
    "field_col (edge_prop sym_e ''e'' sym_B ''B'' ln 12) = 12"
    "get_orgname (get_first (edge_prop sym_e ''e'' sym_B ''B'' ln 12)) = ''e''" for ln
    by (simp_all add: edge_prop_def mk_field_def mk_id_def sym_e_def sym_B_def mk_sym_def)
  have s: "GPS_FLAG_EDGE_DEFINED_INNER sw 13" "inner_loop sw = Some 2"
    "GPS_MAP_EDGE_PROP_ACCESS sw (2, 22) = Some GPS_ENUM_EDGE_VALUE_SENT_WRITE"
    "reports_of GM_ERROR_GPS_EDGE_SEND_VERSIONS sw = []"
    "GPS_FLAG_EDGE_DEFINED_INNER er 13" "inner_loop er = Some 2"
    "GPS_MAP_EDGE_PROP_ACCESS er (2, 22) = Some GPS_ENUM_EDGE_VALUE_ERROR"
    "reports_of GM_ERROR_GPS_EDGE_SEND_VERSIONS er = []"
    by (simp_all add: sw_def er_def inside_inner_loop_def new_gps_check_edge_value_t_def reports_of_def)
  have 1: "\<exists>st'. apply_expr header_34
            \<lparr>expr_class = EXPR_FIELD (edge_prop sym_e ''e'' sym_B ''B'' 7 12),
             info_bool_EXPR_SCOPE = False\<rparr> sw = Inr (True, st')
        \<and> reports_of GM_ERROR_GPS_EDGE_SEND_VERSIONS st'
            = [Diag GM_ERROR_GPS_EDGE_SEND_VERSIONS 7 12 (Some ''e'')]
        \<and> GPS_MAP_EDGE_PROP_ACCESS st' (2, 22) = Some GPS_ENUM_EDGE_VALUE_ERROR"
    using C2_send_two_versions_report
      [of "\<lparr>expr_class = EXPR_FIELD (edge_prop sym_e ''e'' sym_B ''B'' 7 12),
             info_bool_EXPR_SCOPE = False\<rparr>" "edge_prop sym_e ''e'' sym_B ''B'' 7 12" sw 2 header_34]
    by (simp add: f s)
  have 2: "\<exists>st'. apply_expr header_34
            \<lparr>expr_class = EXPR_FIELD (edge_prop sym_e ''e'' sym_B ''B'' 9 12),
             info_bool_EXPR_SCOPE = False\<rparr> er = Inr (True, st')
        \<and> reports_of GM_ERROR_GPS_EDGE_SEND_VERSIONS st' = []
        \<and> GPS_MAP_EDGE_PROP_ACCESS st' (2, 22) = Some GPS_ENUM_EDGE_VALUE_ERROR"
    using C2_send_two_versions_report
      [of "\<lparr>expr_class = EXPR_FIELD (edge_prop sym_e ''e'' sym_B ''B'' 9 12),
             info_bool_EXPR_SCOPE = False\<rparr>" "edge_prop sym_e ''e'' sym_B ''B'' 9 12" er 2 header_34]
    by (simp add: f s)
  have 3: "manage_edge_prop_access_state (Some 2) 22 WRITING er = Inr (False, er)"
    using C2_send_two_versions_report
      [of _ _ er 2 _ _ _ _ _ _ _ _ _ _ _ _ 22 Write]
    by (simp add: s)
  from 1 2 3 show ?thesis by (simp add: sw_def er_def)
qed

text \<open>
  C7. When the pass returns, the value it gives to \<^verbatim>\<open>set_okay\<close> is true if and
  only if nothing was reported during the whole walk. Each of the four callbacks, whenever
  it returns, returns the continue signal and keeps every report made before it: a
  violation never ends the walk and never removes an earlier report. So the pass is the
  run of the callbacks over every symbol entry, statement and expression of the
  procedure, in order, whatever was reported on the way.
\<close>

theorem C7_pass_result:
  "(process K is_inner proc = Inr (ok, st) \<longrightarrow> (ok \<longleftrightarrow> backend_errors st = []))
   \<and> (apply_sent ps s st1 = Inr (c1, st2) \<longrightarrow> c1 \<and> prefix (backend_errors st1) (backend_errors st2))
   \<and> (apply_expr K e st1 = Inr (c2, st3) \<longrightarrow> c2 \<and> prefix (backend_errors st1) (backend_errors st3))
   \<and> (apply_symtab y st1 = Inr (c3, st4) \<longrightarrow> c3 \<and> prefix (backend_errors st1) (backend_errors st4))
   \<and> (apply2 s st1 = Inr (c4, st5) \<longrightarrow> c4 \<and> prefix (backend_errors st1) (backend_errors st5))
   \<and> process K is_inner proc =
       (case run_visits K (visits_proc proc) (new_gps_check_edge_value_t is_inner) of
          Inl x \<Rightarrow> Inl x
        | Inr T2 \<Rightarrow> Inr (\<not> is_error T2, T2))"
  using process_flag_agrees [of K is_inner proc ok st] process_visits [of K is_inner proc]
    callbacks_continue_and_extend(1) [of ps s st1 c1 st2]
    callbacks_continue_and_extend(2) [of K e st1 c2 st3]
    callbacks_continue_and_extend(3) [of y st1 c3 st4]
    callbacks_continue_and_extend(4) [of s st1 c4 st5]
  by blast

theorem C7_witness:
  "(\<exists>st. process header_34 inner_loops scenario_A = Inr (True, st) \<and> backend_errors st = [])
   \<and> (\<exists>st. process header_34 inner_loops scenario_many = Inr (False, st)
         \<and> backend_errors st
             = [Diag GM_ERROR_GPS_EDGE_SEND_VERSIONS 7 12 (Some ''e''),
                Diag GM_ERROR_GPS_EDGE_WRITE_CONDITIONAL 8 18 None,
                Diag GM_ERROR_GPS_EDGE_READ_RANDOM 9 13 None])"
proof -
  from scenario_A_run obtain st where a: "process header_34 inner_loops scenario_A = Inr (True, st)"
    and ea: "backend_errors st = []"
    by (auto split: sum.splits)
  from scenario_many_run obtain ok st' where
    m: "process header_34 inner_loops scenario_many = Inr (ok, st')"
    and em: "backend_errors st'
             = [Diag GM_ERROR_GPS_EDGE_SEND_VERSIONS 7 12 (Some ''e''),
                Diag GM_ERROR_GPS_EDGE_WRITE_CONDITIONAL 8 18 None,
                Diag GM_ERROR_GPS_EDGE_READ_RANDOM 9 13 None]"
    by (auto split: sum.splits)
  from C7_pass_result [of header_34 inner_loops scenario_many ok st'] m em
  have "ok = False" by simp
  with a ea m em show ?thesis by blast
qed

text \<open>
  C8. The fields \<open>inner_loop\<close> and \<open>inner_iter\<close> hold at most one loop and one
  iterator; both are empty when the analyzer is constructed. The statement callback sets
  them, to the loop and to its iterator, at a \<^verbatim>\<open>foreach\<close> that carries
  \<open>GPS_FLAG_IS_INNER_LOOP\<close>, and changes them at no other statement; \<^verbatim>\<open>apply2\<close>
  empties both at a \<^verbatim>\<open>foreach\<close> whose address is the stored one and changes them
  at no other statement; the expression and symbol callbacks never change them.
\<close>

theorem C8_inner_loop_is_single_valued_state:
  "inner_loop (new_gps_check_edge_value_t is_inner) = None
   \<and> inner_iter (new_gps_check_edge_value_t is_inner) = None
   \<and> (sent_class s = SENT_FOREACH it \<and> GPS_FLAG_IS_INNER_LOOP st (sent_addr s)
      \<longrightarrow> apply_sent ps s st
            = Inr (True, st\<lparr>inner_iter := Some (sym_addr (getSymInfo it)),
                             inner_loop := Some (sent_addr s)\<rparr>))
   \<and> (apply_sent ps s st = Inr (c1, st1)
        \<and> \<not> (get_nodetype (sent_class s) = AST_FOREACH \<and> GPS_FLAG_IS_INNER_LOOP st (sent_addr s))
      \<longrightarrow> inner_loop st1 = inner_loop st \<and> inner_iter st1 = inner_iter st)
   \<and> (get_nodetype (sent_class s) = AST_FOREACH \<and> inner_loop st = Some (sent_addr s)
      \<longrightarrow> apply2 s st = Inr (True, st\<lparr>inner_loop := None, inner_iter := None\<rparr>))
   \<and> (apply2 s st = Inr (c2, st2)
        \<and> \<not> (get_nodetype (sent_class s) = AST_FOREACH \<and> inner_loop st = Some (sent_addr s))
      \<longrightarrow> inner_loop st2 = inner_loop st \<and> inner_iter st2 = inner_iter st)
   \<and> (apply_expr K e st = Inr (c3, st3)
      \<longrightarrow> inner_loop st3 = inner_loop st \<and> inner_iter st3 = inner_iter st)
   \<and> (apply_symtab y st = Inr (c4, st4)
      \<longrightarrow> inner_loop st4 = inner_loop st \<and> inner_iter st4 = inner_iter st)"
proof -
  have 0: "inner_loop (new_gps_check_edge_value_t is_inner) = None"
    "inner_iter (new_gps_check_edge_value_t is_inner) = None"
    by (simp_all add: new_gps_check_edge_value_t_def)
  have 1: "apply_sent ps s st
            = Inr (True, st\<lparr>inner_iter := Some (sym_addr (getSymInfo it)),
                             inner_loop := Some (sent_addr s)\<rparr>)"
    if "sent_class s = SENT_FOREACH it" "GPS_FLAG_IS_INNER_LOOP st (sent_addr s)"
    using that by (simp add: apply_sent_def)
  have 2: "inner_loop st1 = inner_loop st \<and> inner_iter st1 = inner_iter st"
    if "apply_sent ps s st = Inr (c1, st1)"
      "\<not> (get_nodetype (sent_class s) = AST_FOREACH \<and> GPS_FLAG_IS_INNER_LOOP st (sent_addr s))"
    using apply_sent_result [OF that(1)] that(2) by (auto simp add: write_path_def)
  have 3: "apply2 s st = Inr (True, st\<lparr>inner_loop := None, inner_iter := None\<rparr>)"
    if "get_nodetype (sent_class s) = AST_FOREACH" "inner_loop st = Some (sent_addr s)"
    using that by (cases "sent_class s") (simp_all add: apply2_def)
  have 4: "inner_loop st2 = inner_loop st \<and> inner_iter st2 = inner_iter st"
    if "apply2 s st = Inr (c2, st2)"
      "\<not> (get_nodetype (sent_class s) = AST_FOREACH \<and> inner_loop st = Some (sent_addr s))"
    using apply2_result [OF that(1)] that(2) by auto
  have 5: "inner_loop st3 = inner_loop st \<and> inner_iter st3 = inner_iter st"
    if "apply_expr K e st = Inr (c3, st3)"
    using apply_expr_result [OF that] by (auto simp add: check_rhs_scope_frame)
  have 6: "inner_loop st4 = inner_loop st \<and> inner_iter st4 = inner_iter st"
    if "apply_symtab y st = Inr (c4, st4)"
    using apply_symtab_result [OF that] by auto
  from 0 1 2 3 4 5 6 show ?thesis by blast
qed

theorem C8_witness:
  "(\<exists>st'. apply_sent [(1, AST_FOREACH), (0, AST_PROCDEF)]
             (Sent 2 (SENT_FOREACH (mk_id sym_s ''s'' 2 11)) [sym_s] [] [])
             (new_gps_check_edge_value_t inner_loops) = Inr (True, st')
         \<and> inner_loop st' = Some 2 \<and> inner_iter st' = Some 12)
   \<and> (\<exists>st'. apply_sent [(0, AST_PROCDEF)]
             (Sent 1 (SENT_FOREACH (mk_id sym_n ''n'' 1 9)) [sym_n] [] [])
             (new_gps_check_edge_value_t inner_loops) = Inr (True, st')
         \<and> inner_loop st' = None \<and> inner_iter st' = None)
   \<and> (\<exists>st'. apply2 (Sent 2 (SENT_FOREACH (mk_id sym_s ''s'' 2 11)) [sym_s] [] []) inside_inner_loop
             = Inr (True, st')
         \<and> inner_loop st' = None \<and> inner_iter st' = None)
   \<and> (\<exists>st'. apply2 (Sent 1 (SENT_FOREACH (mk_id sym_n ''n'' 1 9)) [sym_n] [] []) inside_inner_loop
             = Inr (True, st')
         \<and> inner_loop st' = Some 2 \<and> inner_iter st' = Some 12)"
proof -
  let ?inner = "Sent 2 (SENT_FOREACH (mk_id sym_s ''s'' 2 11)) [sym_s] [] []"
  let ?outer = "Sent 1 (SENT_FOREACH (mk_id sym_n ''n'' 1 9)) [sym_n] [] []"
  let ?new = "new_gps_check_edge_value_t inner_loops"
  have n: "GPS_FLAG_IS_INNER_LOOP ?new 2" "\<not> GPS_FLAG_IS_INNER_LOOP ?new 1"
    "inner_loop ?new = None" "inner_iter ?new = None"
    "\<not> GPS_FLAG_IS_INNER_LOOP ?new (Suc 0)"
    by (simp_all add: new_gps_check_edge_value_t_def inner_loops_def)
  have i: "inner_loop inside_inner_loop = Some 2" "inner_iter inside_inner_loop = Some 12"
    by (simp_all add: inside_inner_loop_def)
  have s: "sym_addr (getSymInfo (mk_id sym_s ''s'' 2 11)) = 12"
    by (simp add: mk_id_def sym_s_def mk_sym_def)
  have 1: "\<exists>st'. apply_sent [(1, AST_FOREACH), (0, AST_PROCDEF)] ?inner ?new = Inr (True, st')
         \<and> inner_loop st' = Some 2 \<and> inner_iter st' = Some 12"
    using C8_inner_loop_is_single_valued_state
      [of inner_loops ?inner "mk_id sym_s ''s'' 2 11" ?new "[(1, AST_FOREACH), (0, AST_PROCDEF)]"]
    by (simp add: n s)
  have "apply_sent [(0, AST_PROCDEF)] ?outer ?new = Inr (True, ?new)"
    by (simp add: apply_sent_def new_gps_check_edge_value_t_def inner_loops_def)
  with C8_inner_loop_is_single_valued_state
      [of inner_loops ?outer _ ?new "[(0, AST_PROCDEF)]" True ?new]
  have 2: "\<exists>st'. apply_sent [(0, AST_PROCDEF)] ?outer ?new = Inr (True, st')
         \<and> inner_loop st' = None \<and> inner_iter st' = None"
    by (simp add: n)
  have 3: "\<exists>st'. apply2 ?inner inside_inner_loop = Inr (True, st')
         \<and> inner_loop st' = None \<and> inner_iter st' = None"
    using C8_inner_loop_is_single_valued_state [of _ ?inner _ inside_inner_loop]
    by (simp add: i)
  have "apply2 ?outer inside_inner_loop = Inr (True, inside_inner_loop)"
    by (simp add: apply2_def i)
  with C8_inner_loop_is_single_valued_state
      [of _ ?outer _ inside_inner_loop _ _ _ True inside_inner_loop]
  have 4: "\<exists>st'. apply2 ?outer inside_inner_loop = Inr (True, st')
         \<and> inner_loop st' = Some 2 \<and> inner_iter st' = Some 12"
    by (simp add: i)
  from 1 2 3 4 show ?thesis by blast
qed

text \<open>
  C5, what the code does. The test of (case 2) compares the \<^verbatim>\<open>bool\<close> read by
  \<^verbatim>\<open>find_info_bool\<close>, promoted to 0 or 1, with the two scope constants. When
  neither constant is 0 or 1 the test is never true: it leaves every state as it is, also
  inside the right-hand side of an edge-property write; the expression callback adds no
  report \<open>GM_ERROR_GPS_EDGE_WRITE_RHS\<close>; and whatever the procedure and whatever was
  read for its expressions, the pass, when it returns, has made no such report.
\<close>

theorem C5_rhs_check_compares_a_bool:
  assumes "GPS_NEW_SCOPE_IN K \<noteq> 0" and "GPS_NEW_SCOPE_IN K \<noteq> 1"
    and "GPS_NEW_SCOPE_RANDOM K \<noteq> 0" and "GPS_NEW_SCOPE_RANDOM K \<noteq> 1"
  shows "check_rhs_scope K e st = st
       \<and> (apply_expr K e st = Inr (c, st')
          \<longrightarrow> reports_of GM_ERROR_GPS_EDGE_WRITE_RHS st'
                = reports_of GM_ERROR_GPS_EDGE_WRITE_RHS st)
       \<and> (process K is_inner proc = Inr (ok, T2)
          \<longrightarrow> reports_of GM_ERROR_GPS_EDGE_WRITE_RHS T2 = [])"
proof -
  from assms have q: "scope_constants_not_bool K"
    by (simp add: scope_constants_not_bool_def)
  from assms have off: "rhs_report K e st = []"
    by (rule rhs_report_off)
  then have 1: "check_rhs_scope K e st = st"
    by (simp add: check_rhs_scope_eq)
  have 2: "reports_of GM_ERROR_GPS_EDGE_WRITE_RHS st' = reports_of GM_ERROR_GPS_EDGE_WRITE_RHS st"
    if "apply_expr K e st = Inr (c, st')"
    using apply_expr_result [OF that] off
    by (auto simp add: reports_of_def check_rhs_scope_frame)
  have 3: "reports_of GM_ERROR_GPS_EDGE_WRITE_RHS T2 = []"
    if p: "process K is_inner proc = Inr (ok, T2)"
  proof -
    from p have t: "traverse_both K proc (new_gps_check_edge_value_t is_inner) = Inr T2"
      by (auto simp add: process_def split: sum.splits)
    have n: "reports_of GM_ERROR_GPS_EDGE_WRITE_RHS (new_gps_check_edge_value_t is_inner) = []"
      by (simp add: reports_of_def new_gps_check_edge_value_t_def)
    show ?thesis
    proof (rule traverse_both_preserves
        [of "\<lambda>st. reports_of GM_ERROR_GPS_EDGE_WRITE_RHS st = []" scope_constants_not_bool,
         OF _ _ _ _ q n t])
      fix e st c st'
      assume "reports_of GM_ERROR_GPS_EDGE_WRITE_RHS st = []" "apply_symtab e st = Inr (c, st')"
      then show "reports_of GM_ERROR_GPS_EDGE_WRITE_RHS st' = []"
        by (simp add: apply_symtab_reports)
    next
      fix ps s st c st'
      assume "reports_of GM_ERROR_GPS_EDGE_WRITE_RHS st = []" "apply_sent ps s st = Inr (c, st')"
      then show "reports_of GM_ERROR_GPS_EDGE_WRITE_RHS st' = []"
        by (simp add: apply_sent_reports)
    next
      fix K e st c st'
      assume "scope_constants_not_bool K" "reports_of GM_ERROR_GPS_EDGE_WRITE_RHS st = []"
        "apply_expr K e st = Inr (c, st')"
      then show "reports_of GM_ERROR_GPS_EDGE_WRITE_RHS st' = []"
        by (rule no_rhs_report_expr)
    next
      fix s st c st'
      assume "reports_of GM_ERROR_GPS_EDGE_WRITE_RHS st = []" "apply2 s st = Inr (c, st')"
      then show "reports_of GM_ERROR_GPS_EDGE_WRITE_RHS st' = []"
        by (simp add: apply2_reports)
    qed
  qed
  from 1 2 3 show ?thesis by blast
qed

theorem C5_witness:
  "GPS_NEW_SCOPE_IN header_34 \<noteq> 0 \<and> GPS_NEW_SCOPE_IN header_34 \<noteq> 1
   \<and> GPS_NEW_SCOPE_RANDOM header_34 \<noteq> 0 \<and> GPS_NEW_SCOPE_RANDOM header_34 \<noteq> 1
   \<and> target_is_edge_prop (inside_inner_loop\<lparr>target_is_edge_prop := True\<rparr>)
   \<and> check_rhs_scope header_34 (expr_node (read_s_Y True))
        (inside_inner_loop\<lparr>target_is_edge_prop := True\<rparr>)
       = inside_inner_loop\<lparr>target_is_edge_prop := True\<rparr>
   \<and> check_rhs_scope header_34 (expr_node (read_s_Y False))
        (inside_inner_loop\<lparr>target_is_edge_prop := True\<rparr>)
       = inside_inner_loop\<lparr>target_is_edge_prop := True\<rparr>
   \<and> (\<exists>st. process header_34 inner_loops (scenario_D True) = Inr (True, st)
         \<and> reports_of GM_ERROR_GPS_EDGE_WRITE_RHS st = [] \<and> backend_errors st = [])
   \<and> (\<exists>st. process header_34 inner_loops (scenario_D False) = Inr (True, st)
         \<and> reports_of GM_ERROR_GPS_EDGE_WRITE_RHS st = [] \<and> backend_errors st = [])"
proof -
  have h: "GPS_NEW_SCOPE_IN header_34 \<noteq> 0" "GPS_NEW_SCOPE_IN header_34 \<noteq> 1"
    "GPS_NEW_SCOPE_RANDOM header_34 \<noteq> 0" "GPS_NEW_SCOPE_RANDOM header_34 \<noteq> 1"
    by (simp_all add: header_34_def)
  from scenario_D_run(1) obtain st1 where
    1: "process header_34 inner_loops (scenario_D True) = Inr (True, st1)" "backend_errors st1 = []"
    by (auto split: sum.splits)
  from scenario_D_run(2) obtain st2 where
    2: "process header_34 inner_loops (scenario_D False) = Inr (True, st2)" "backend_errors st2 = []"
    by (auto split: sum.splits)
  from C5_rhs_check_compares_a_bool
         [OF h, where e = "expr_node (read_s_Y True)"
            and st = "inside_inner_loop\<lparr>target_is_edge_prop := True\<rparr>"
            and is_inner = inner_loops and proc = "scenario_D True" and ok = True and ?T2.0 = st1]
       C5_rhs_check_compares_a_bool
         [OF h, where e = "expr_node (read_s_Y False)"
            and st = "inside_inner_loop\<lparr>target_is_edge_prop := True\<rparr>"
            and is_inner = inner_loops and proc = "scenario_D False" and ok = True and ?T2.0 = st2]
       h 1 2
  show ?thesis by auto
qed

text \<open>
  C6, as stated, fails. In the procedure \<open>copy_f_to_e\<close> the edge-typed symbol \<open>e\<close>
  (address 13) is declared in the inner loop (address 2) and its only binding statement is
  the copy \<^verbatim>\<open>Edge e = f;\<close>: it is not bound by a conversion of the iterator, and
  yet the pass marks it \<open>GPS_FLAG_EDGE_DEFINED_INNER\<close> and marks the inner loop
  \<open>GPS_FLAG_EDGE_DEFINING_INNER\<close>.
\<close>

theorem C6_counterexample:
  "type_is_edge sym_e \<and> sym_addr sym_e = 13
   \<and> \<not> bound_by_iterator_to_edge inner_loops copy_f_to_e 13
   \<and> (case process header_34 inner_loops copy_f_to_e of
         Inl x \<Rightarrow> False
       | Inr (ok, st) \<Rightarrow>
           ok \<and> GPS_FLAG_EDGE_DEFINED_INNER st 13 \<and> GPS_FLAG_EDGE_DEFINING_INNER st 2)"
  by code_simp

text \<open>
  C6, amended. The symbol callback always returns the continue signal; it marks a symbol
  \<open>GPS_FLAG_EDGE_DEFINED_INNER\<close> exactly when the symbol is of edge type and its
  entry is visited while an inner loop is current, and it then marks that loop
  \<open>GPS_FLAG_EDGE_DEFINING_INNER\<close>; all other marks of the two kinds stay as they
  were, and no other callback changes a mark of either kind. The statement that binds the
  symbol plays no role for these two marks: an assignment to a scalar is itself marked
  \<open>GPS_FLAG_EDGE_DEFINING_WRITE\<close> exactly when its target is of edge type and
  marked and its right-hand side is the conversion of an iterator to its edge.
\<close>

theorem C6_defined_inner_marks_declaration_in_inner_loop:
  "(\<exists>st'. apply_symtab y st = Inr (True, st')
       \<and> (\<forall>a. GPS_FLAG_EDGE_DEFINED_INNER st' a
               \<longleftrightarrow> GPS_FLAG_EDGE_DEFINED_INNER st a
                   \<or> (a = sym_addr y \<and> type_is_edge y \<and> inner_loop st \<noteq> None))
       \<and> (\<forall>l. GPS_FLAG_EDGE_DEFINING_INNER st' l
               \<longleftrightarrow> GPS_FLAG_EDGE_DEFINING_INNER st l
                   \<or> (type_is_edge y \<and> inner_loop st = Some l)))
   \<and> (apply_sent ps s st = Inr (c1, st1)
      \<longrightarrow> GPS_FLAG_EDGE_DEFINED_INNER st1 = GPS_FLAG_EDGE_DEFINED_INNER st
          \<and> GPS_FLAG_EDGE_DEFINING_INNER st1 = GPS_FLAG_EDGE_DEFINING_INNER st)
   \<and> (apply_expr K e st = Inr (c2, st2)
      \<longrightarrow> GPS_FLAG_EDGE_DEFINED_INNER st2 = GPS_FLAG_EDGE_DEFINED_INNER st
          \<and> GPS_FLAG_EDGE_DEFINING_INNER st2 = GPS_FLAG_EDGE_DEFINING_INNER st)
   \<and> (apply2 s st = Inr (c3, st3)
      \<longrightarrow> GPS_FLAG_EDGE_DEFINED_INNER st3 = GPS_FLAG_EDGE_DEFINED_INNER st
          \<and> GPS_FLAG_EDGE_DEFINING_INNER st3 = GPS_FLAG_EDGE_DEFINING_INNER st)
   \<and> (sent_class s = SENT_ASSIGN (LHS_SCALA i) rhs \<and> apply_sent ps s st = Inr (c4, st4)
      \<longrightarrow> (GPS_FLAG_EDGE_DEFINING_WRITE st4 (sent_addr s)
            \<longleftrightarrow> GPS_FLAG_EDGE_DEFINING_WRITE st (sent_addr s)
                \<or> (type_is_edge (getSymInfo i)
                   \<and> GPS_FLAG_EDGE_DEFINED_INNER st (sym_addr (getSymInfo i))
                   \<and> is_iterator_to_edge rhs)))"
proof -
  have 1: "\<exists>st'. apply_symtab y st = Inr (True, st')
       \<and> (\<forall>a. GPS_FLAG_EDGE_DEFINED_INNER st' a
               \<longleftrightarrow> GPS_FLAG_EDGE_DEFINED_INNER st a
                   \<or> (a = sym_addr y \<and> type_is_edge y \<and> inner_loop st \<noteq> None))
       \<and> (\<forall>l. GPS_FLAG_EDGE_DEFINING_INNER st' l
               \<longleftrightarrow> GPS_FLAG_EDGE_DEFINING_INNER st l
                   \<or> (type_is_edge y \<and> inner_loop st = Some l))"
    by (cases "inner_loop st"; cases "type_is_edge y") (auto simp add: apply_symtab_def)
  have 2: "GPS_FLAG_EDGE_DEFINED_INNER st1 = GPS_FLAG_EDGE_DEFINED_INNER st
          \<and> GPS_FLAG_EDGE_DEFINING_INNER st1 = GPS_FLAG_EDGE_DEFINING_INNER st"
    if "apply_sent ps s st = Inr (c1, st1)"
    using apply_sent_result [OF that] by (auto simp add: write_path_def)
  have 3: "GPS_FLAG_EDGE_DEFINED_INNER st2 = GPS_FLAG_EDGE_DEFINED_INNER st
          \<and> GPS_FLAG_EDGE_DEFINING_INNER st2 = GPS_FLAG_EDGE_DEFINING_INNER st"
    if "apply_expr K e st = Inr (c2, st2)"
    using apply_expr_result [OF that] by (auto simp add: check_rhs_scope_frame)
  have 4: "GPS_FLAG_EDGE_DEFINED_INNER st3 = GPS_FLAG_EDGE_DEFINED_INNER st
          \<and> GPS_FLAG_EDGE_DEFINING_INNER st3 = GPS_FLAG_EDGE_DEFINING_INNER st"
    if "apply2 s st = Inr (c3, st3)"
    using apply2_result [OF that] by auto
  have 5: "GPS_FLAG_EDGE_DEFINING_WRITE st4 (sent_addr s)
            \<longleftrightarrow> GPS_FLAG_EDGE_DEFINING_WRITE st (sent_addr s)
                \<or> (type_is_edge (getSymInfo i)
                   \<and> GPS_FLAG_EDGE_DEFINED_INNER st (sym_addr (getSymInfo i))
                   \<and> is_iterator_to_edge rhs)"
    if "sent_class s = SENT_ASSIGN (LHS_SCALA i) rhs" "apply_sent ps s st = Inr (c4, st4)"
    using that
    by (auto simp add: apply_sent_def apply_assign_scala_def Let_def is_iterator_to_edge_def
          split: if_splits expr_class_t.splits option.splits)
  from 1 2 3 4 5 show ?thesis by blast
qed

theorem C6_witness:
  "(\<exists>st'. apply_symtab sym_e
            ((new_gps_check_edge_value_t inner_loops)\<lparr>inner_iter := Some 12, inner_loop := Some 2\<rparr>)
          = Inr (True, st')
       \<and> GPS_FLAG_EDGE_DEFINED_INNER st' 13 \<and> \<not> GPS_FLAG_EDGE_DEFINED_INNER st' 14
       \<and> GPS_FLAG_EDGE_DEFINING_INNER st' 2 \<and> \<not> GPS_FLAG_EDGE_DEFINING_INNER st' 1)
   \<and> (\<exists>st'. apply_symtab sym_f (new_gps_check_edge_value_t inner_loops) = Inr (True, st')
       \<and> \<not> GPS_FLAG_EDGE_DEFINED_INNER st' 14)
   \<and> (\<exists>st'. apply_sent body_parents bind_e inside_inner_loop = Inr (True, st')
       \<and> GPS_FLAG_EDGE_DEFINING_WRITE st' 4
       \<and> GPS_FLAG_EDGE_DEFINED_INNER st' = GPS_FLAG_EDGE_DEFINED_INNER inside_inner_loop)"
proof -
  let ?st = "(new_gps_check_edge_value_t inner_loops)\<lparr>inner_iter := Some 12, inner_loop := Some 2\<rparr>"
  have e: "type_is_edge sym_e" "sym_addr sym_e = 13" "type_is_edge sym_f" "sym_addr sym_f = 14"
    by (simp_all add: sym_e_def sym_f_def mk_sym_def)
  have 1: "\<exists>st'. apply_symtab sym_e ?st = Inr (True, st')
       \<and> GPS_FLAG_EDGE_DEFINED_INNER st' 13 \<and> \<not> GPS_FLAG_EDGE_DEFINED_INNER st' 14
       \<and> GPS_FLAG_EDGE_DEFINING_INNER st' 2 \<and> \<not> GPS_FLAG_EDGE_DEFINING_INNER st' 1"
    using C6_defined_inner_marks_declaration_in_inner_loop [of sym_e ?st, THEN conjunct1]
    by (auto simp add: e new_gps_check_edge_value_t_def)
  have 2: "\<exists>st'. apply_symtab sym_f (new_gps_check_edge_value_t inner_loops) = Inr (True, st')
       \<and> \<not> GPS_FLAG_EDGE_DEFINED_INNER st' 14"
    using C6_defined_inner_marks_declaration_in_inner_loop
      [of sym_f "new_gps_check_edge_value_t inner_loops", THEN conjunct1]
    by (auto simp add: e new_gps_check_edge_value_t_def)
  have b: "sent_class bind_e = SENT_ASSIGN (LHS_SCALA (mk_id sym_e ''e'' 3 13)) (to_edge_of_s 3 17)"
    "sent_addr bind_e = 4"
    by (simp_all add: bind_e_def)
  have r: "apply_sent body_parents bind_e inside_inner_loop
      = Inr (True, inside_inner_loop\<lparr>GPS_FLAG_EDGE_DEFINING_WRITE :=
                     (GPS_FLAG_EDGE_DEFINING_WRITE inside_inner_loop)(4 := True)\<rparr>)"
    by (simp add: apply_sent_def apply_assign_scala_def b mk_id_def e to_edge_of_s_def mk_expr_def
          inside_inner_loop_def)
  have i: "is_iterator_to_edge (to_edge_of_s 3 17)"
    "type_is_edge (getSymInfo (mk_id sym_e ''e'' 3 13))"
    "GPS_FLAG_EDGE_DEFINED_INNER inside_inner_loop (sym_addr (getSymInfo (mk_id sym_e ''e'' 3 13)))"
    by (simp_all add: is_iterator_to_edge_def to_edge_of_s_def mk_expr_def mk_id_def e
          inside_inner_loop_def)
  have 3: "\<exists>st'. apply_sent body_parents bind_e inside_inner_loop = Inr (True, st')
       \<and> GPS_FLAG_EDGE_DEFINING_WRITE st' 4
       \<and> GPS_FLAG_EDGE_DEFINED_INNER st' = GPS_FLAG_EDGE_DEFINED_INNER inside_inner_loop"
    using C6_defined_inner_marks_declaration_in_inner_loop
      [of _ inside_inner_loop body_parents bind_e True
          "inside_inner_loop\<lparr>GPS_FLAG_EDGE_DEFINING_WRITE :=
                     (GPS_FLAG_EDGE_DEFINING_WRITE inside_inner_loop)(4 := True)\<rparr>"
          _ _ _ _ _ _ "mk_id sym_e ''e'' 3 13" "to_edge_of_s 3 17" True
          "inside_inner_loop\<lparr>GPS_FLAG_EDGE_DEFINING_WRITE :=
                     (GPS_FLAG_EDGE_DEFINING_WRITE inside_inner_loop)(4 := True)\<rparr>"]
      r b i
    by simp
  from 1 2 3 show ?thesis by blast
qed

end
